theory Spec2Isabelle
  imports Main
begin

section \<open>Outcomes of a call\<close>

text \<open>
  A call of the editor's code either returns a value, throws, or does not return at all.
  An outcome is \<open>None\<close> when the call does not return, \<open>Some (Inl e)\<close> when it throws
  \<open>e\<close>, and \<open>Some (Inr v)\<close> when it returns \<open>v\<close>.
\<close>

datatype error = HierarchyRequestError | NotFoundError | InvalidNodeTypeError | TypeError | JoditError string

type_synonym 'a outcome = "(error + 'a) option"

definition returns :: "'a \<Rightarrow> 'a outcome" where
  "returns v = Some (Inr v)"

definition throws :: "error \<Rightarrow> 'a outcome" where
  "throws e = Some (Inl e)"

definition andThen :: "'a outcome \<Rightarrow> ('a \<Rightarrow> 'b outcome) \<Rightarrow> 'b outcome" where
  "andThen m f = (case m of None \<Rightarrow> None | Some (Inl e) \<Rightarrow> Some (Inl e) | Some (Inr v) \<Rightarrow> f v)"

lemma andThen_mono [partial_function_mono]:
  fixes B :: "('x \<Rightarrow> 'y option) \<Rightarrow> 'a outcome"
    and C :: "'a \<Rightarrow> ('x \<Rightarrow> 'y option) \<Rightarrow> 'b outcome"
  assumes mf: "mono_option B" and mg: "\<And>y. mono_option (\<lambda>f. C y f)"
  shows "mono_option (\<lambda>f. andThen (B f) (\<lambda>y. C y f))"
proof (rule monotoneI)
  fix f g :: "'x \<Rightarrow> 'y option"
  assume fg: "fun_ord option_ord f g"
  have b: "option_ord (B f) (B g)"
    using mf fg by (rule monotoneD[of _ _ _ f g])
  have c: "option_ord (C y f) (C y g)" for y
    using mg[of y] fg by (rule monotoneD[of _ _ _ f g])
  show "option_ord (andThen (B f) (\<lambda>y. C y f)) (andThen (B g) (\<lambda>y. C y g))"
  proof (cases "B f")
    case None
    then show ?thesis by (simp add: andThen_def flat_ord_def)
  next
    case (Some r)
    with b have "B g = Some r" by (simp add: flat_ord_def)
    with Some c show ?thesis
      by (cases r) (simp_all add: andThen_def flat_ord_def)
  qed
qed

lemma andThen_returns [simp]: "andThen (returns v) f = f v"
  by (simp add: andThen_def returns_def)

lemma andThen_throws [simp]: "andThen (throws e) f = throws e"
  by (simp add: andThen_def throws_def)

lemma andThen_None [simp]: "andThen None f = None"
  by (simp add: andThen_def)

lemma returns_neq [simp]:
  "returns v \<noteq> throws e" "throws e \<noteq> returns v" "returns v \<noteq> None" "throws e \<noteq> None"
  "None \<noteq> returns v" "None \<noteq> throws e"
  by (simp_all add: returns_def throws_def)

lemma returns_inject [simp]: "returns v = returns w \<longleftrightarrow> v = w"
  by (simp add: returns_def)

lemma throws_inject [simp]: "throws e = throws e' \<longleftrightarrow> e = e'"
  by (simp add: throws_def)

section \<open>The document tree\<close>

text \<open>
  The browser's DOM is the environment of \<open>src/core/dom.ts\<close>. It is modelled as a store
  from node identities to node objects; every node object holds its parent link and the
  ordered list of its children, as the DOM standard describes the tree. The sibling and
  first/last-child properties are read off these two fields.
\<close>

type_synonym node_id = nat

datatype node_kind = ELEMENT_NODE | TEXT_NODE | DOCUMENT_FRAGMENT_NODE

record node =
  nodeType :: node_kind
  nodeName :: string
  nodeValue :: "string option"
  parentNode :: "node_id option"
  childNodes :: "node_id list"
  cssStyle :: "(string \<times> string) list"
  attrs :: "(string \<times> string) list"

record dom =
  heap :: "node_id \<Rightarrow> node"
  fresh :: node_id

definition parentOf :: "dom \<Rightarrow> node_id \<Rightarrow> node_id option" where
  "parentOf s n = parentNode (heap s n)"

definition childrenOf :: "dom \<Rightarrow> node_id \<Rightarrow> node_id list" where
  "childrenOf s n = childNodes (heap s n)"

definition kindOf :: "dom \<Rightarrow> node_id \<Rightarrow> node_kind" where
  "kindOf s n = nodeType (heap s n)"

definition setParent :: "node_id \<Rightarrow> node_id option \<Rightarrow> dom \<Rightarrow> dom" where
  "setParent n p s = s\<lparr>heap := (heap s)(n := (heap s n)\<lparr>parentNode := p\<rparr>)\<rparr>"

definition setChildren :: "node_id \<Rightarrow> node_id list \<Rightarrow> dom \<Rightarrow> dom" where
  "setChildren n cs s = s\<lparr>heap := (heap s)(n := (heap s n)\<lparr>childNodes := cs\<rparr>)\<rparr>"

definition firstChild :: "dom \<Rightarrow> node_id \<Rightarrow> node_id option" where
  "firstChild s n = (case childrenOf s n of [] \<Rightarrow> None | c # _ \<Rightarrow> Some c)"

definition lastChild :: "dom \<Rightarrow> node_id \<Rightarrow> node_id option" where
  "lastChild s n = (case rev (childrenOf s n) of [] \<Rightarrow> None | c # _ \<Rightarrow> Some c)"

fun following :: "node_id \<Rightarrow> node_id list \<Rightarrow> node_id option" where
  "following n [] = None"
| "following n (c # cs) = (if c = n then (case cs of [] \<Rightarrow> None | d # _ \<Rightarrow> Some d) else following n cs)"

definition nextSibling :: "dom \<Rightarrow> node_id \<Rightarrow> node_id option" where
  "nextSibling s n = (case parentOf s n of None \<Rightarrow> None | Some p \<Rightarrow> following n (childrenOf s p))"

definition previousSibling :: "dom \<Rightarrow> node_id \<Rightarrow> node_id option" where
  "previousSibling s n = (case parentOf s n of None \<Rightarrow> None | Some p \<Rightarrow> following n (rev (childrenOf s p)))"

text \<open>
  The standard's check that a node to be inserted is not an inclusive ancestor of the new
  parent walks the parent links upwards.
\<close>

partial_function (option) ancestorOrSelf :: "dom \<Rightarrow> node_id \<Rightarrow> node_id \<Rightarrow> bool option" where
  "ancestorOrSelf s a n =
     (if a = n then Some True
      else case parentOf s n of None \<Rightarrow> Some False | Some p \<Rightarrow> ancestorOrSelf s a p)"

text \<open>The standard's "remove" of a node from its parent.\<close>

definition removeNode :: "node_id \<Rightarrow> dom \<Rightarrow> dom" where
  "removeNode n s =
     (case parentOf s n of
        None \<Rightarrow> s
      | Some p \<Rightarrow> setParent n None (setChildren p (removeAll n (childrenOf s p)) s))"

definition removeChild :: "node_id \<Rightarrow> node_id \<Rightarrow> dom \<Rightarrow> dom outcome" where
  "removeChild p c s = (if parentOf s c = Some p then returns (removeNode c s) else throws NotFoundError)"

definition insertAt :: "node_id list \<Rightarrow> node_id option \<Rightarrow> node_id list \<Rightarrow> node_id list" where
  "insertAt new ref cs =
     (case ref of
        None \<Rightarrow> cs @ new
      | Some r \<Rightarrow> takeWhile (\<lambda>c. c \<noteq> r) cs @ new @ dropWhile (\<lambda>c. c \<noteq> r) cs)"

text \<open>
  \<open>parent.insertBefore(new, ref)\<close>: the pre-insertion validity checks of the standard
  (the parent can have children, \<open>new\<close> is not an inclusive ancestor of the parent, \<open>ref\<close>
  is a child of the parent), then the insertion. A document fragment is emptied into the
  parent; any other node is first removed from where it was.
\<close>

definition insertBefore :: "node_id \<Rightarrow> node_id \<Rightarrow> node_id option \<Rightarrow> dom \<Rightarrow> dom outcome" where
  "insertBefore p new ref s =
     (if kindOf s p = TEXT_NODE then throws HierarchyRequestError
      else case ancestorOrSelf s new p of
        None \<Rightarrow> None
      | Some True \<Rightarrow> throws HierarchyRequestError
      | Some False \<Rightarrow>
          if (case ref of None \<Rightarrow> False | Some r \<Rightarrow> parentOf s r \<noteq> Some p)
          then throws NotFoundError
          else
            let ref' = (if ref = Some new then nextSibling s new else ref) in
            if kindOf s new = DOCUMENT_FRAGMENT_NODE then
              let ns = childrenOf s new;
                  s1 = setChildren new [] s;
                  s2 = setChildren p (insertAt ns ref' (childrenOf s1 p)) s1
              in returns (fold (\<lambda>c. setParent c (Some p)) ns s2)
            else
              let s1 = removeNode new s
              in returns (setParent new (Some p)
                            (setChildren p (insertAt [new] ref' (childrenOf s1 p)) s1)))"

definition appendChild :: "node_id \<Rightarrow> node_id \<Rightarrow> dom \<Rightarrow> dom outcome" where
  "appendChild p new s = insertBefore p new None s"

subsection \<open>Well-formed stores\<close>

definition parentRel :: "dom \<Rightarrow> (node_id \<times> node_id) set" where
  "parentRel s = {(p, c). parentOf s c = Some p}"

text \<open>
  A store is a forest when the parent links and the child lists agree, no child is listed
  twice, no chain of parent links or of child links goes on forever, text nodes are
  leaves and document fragments are roots. Every store a browser produces is one.
\<close>

definition wf_dom :: "dom \<Rightarrow> bool" where
  "wf_dom s \<longleftrightarrow>
     (\<forall>c p. parentOf s c = Some p \<longrightarrow> c \<in> set (childrenOf s p)) \<and>
     (\<forall>p c. c \<in> set (childrenOf s p) \<longrightarrow> parentOf s c = Some p) \<and>
     (\<forall>p. distinct (childrenOf s p)) \<and>
     wf (parentRel s) \<and> wf ((parentRel s)\<inverse>) \<and>
     (\<forall>n. kindOf s n = TEXT_NODE \<longrightarrow> childrenOf s n = []) \<and>
     (\<forall>n. kindOf s n = DOCUMENT_FRAGMENT_NODE \<longrightarrow> parentOf s n = None)"

text \<open>Identities from \<open>fresh\<close> on are not yet in use.\<close>

definition fresh_ok :: "dom \<Rightarrow> bool" where
  "fresh_ok s \<longleftrightarrow> (\<forall>n\<ge>fresh s. parentOf s n = None \<and> childrenOf s n = [])"

subsection \<open>Facts about the store\<close>


lemma parentOf_setParent [simp]: "parentOf (setParent n p s) m = (if m = n then p else parentOf s m)"
  by (simp add: parentOf_def setParent_def)

lemma childrenOf_setParent [simp]: "childrenOf (setParent n p s) m = childrenOf s m"
  by (simp add: childrenOf_def setParent_def)

lemma kindOf_setParent [simp]: "kindOf (setParent n p s) m = kindOf s m"
  by (simp add: kindOf_def setParent_def)

lemma parentOf_setChildren [simp]: "parentOf (setChildren n cs s) m = parentOf s m"
  by (simp add: parentOf_def setChildren_def)

lemma childrenOf_setChildren [simp]:
  "childrenOf (setChildren n cs s) m = (if m = n then cs else childrenOf s m)"
  by (simp add: childrenOf_def setChildren_def)

lemma kindOf_setChildren [simp]: "kindOf (setChildren n cs s) m = kindOf s m"
  by (simp add: kindOf_def setChildren_def)

lemma fresh_setParent [simp]: "fresh (setParent n p s) = fresh s"
  by (simp add: setParent_def)

lemma fresh_setChildren [simp]: "fresh (setChildren n cs s) = fresh s"
  by (simp add: setChildren_def)

lemma parentOf_removeNode [simp]:
  "parentOf (removeNode n s) m = (if m = n then None else parentOf s m)"
  by (auto simp: removeNode_def split: option.splits)

lemma childrenOf_removeNode [simp]:
  "childrenOf (removeNode n s) m =
     (if parentOf s n = Some m then removeAll n (childrenOf s m) else childrenOf s m)"
  by (auto simp: removeNode_def split: option.splits)

lemma kindOf_removeNode [simp]: "kindOf (removeNode n s) m = kindOf s m"
  by (simp add: removeNode_def split: option.splits)

lemma fresh_removeNode [simp]: "fresh (removeNode n s) = fresh s"
  by (simp add: removeNode_def split: option.splits)

lemma in_parentRel [simp]: "(p, c) \<in> parentRel s \<longleftrightarrow> parentOf s c = Some p"
  by (simp add: parentRel_def)

lemma ancestorOrSelf_rtrancl:
  assumes "wf (parentRel s)"
  shows "ancestorOrSelf s a n = Some ((a, n) \<in> (parentRel s)\<^sup>*)"
  using assms
proof (induction n rule: wf_induct_rule)
  case (less n)
  show ?case
  proof (cases "a = n")
    case True
    then show ?thesis by (subst ancestorOrSelf.simps) simp
  next
    case False
    show ?thesis
    proof (cases "parentOf s n")
      case None
      have "(a, n) \<notin> (parentRel s)\<^sup>*"
      proof
        assume "(a, n) \<in> (parentRel s)\<^sup>*"
        then show False using False None by (cases rule: rtranclE) auto
      qed
      then show ?thesis using False None by (subst ancestorOrSelf.simps) simp
    next
      case (Some p)
      have "(a, n) \<in> (parentRel s)\<^sup>* \<longleftrightarrow> (a, p) \<in> (parentRel s)\<^sup>*"
      proof
        assume "(a, n) \<in> (parentRel s)\<^sup>*"
        then show "(a, p) \<in> (parentRel s)\<^sup>*" using False Some by (cases rule: rtranclE) auto
      next
        assume "(a, p) \<in> (parentRel s)\<^sup>*"
        then show "(a, n) \<in> (parentRel s)\<^sup>*" using Some by (auto intro: rtrancl_into_rtrancl)
      qed
      moreover have "ancestorOrSelf s a p = Some ((a, p) \<in> (parentRel s)\<^sup>*)"
        using less Some by simp
      ultimately show ?thesis using False Some by (subst ancestorOrSelf.simps) simp
    qed
  qed
qed

lemma wf_domD:
  assumes "wf_dom s"
  shows "parentOf s c = Some p \<Longrightarrow> c \<in> set (childrenOf s p)"
    and "c \<in> set (childrenOf s p) \<Longrightarrow> parentOf s c = Some p"
    and "distinct (childrenOf s p)"
    and "wf (parentRel s)"
    and "wf ((parentRel s)\<inverse>)"
    and "kindOf s n = TEXT_NODE \<Longrightarrow> childrenOf s n = []"
    and "kindOf s n = DOCUMENT_FRAGMENT_NODE \<Longrightarrow> parentOf s n = None"
  using assms unfolding wf_dom_def by blast+

lemma wf_domI:
  assumes "\<And>c p. parentOf s c = Some p \<Longrightarrow> c \<in> set (childrenOf s p)"
    and "\<And>c p. c \<in> set (childrenOf s p) \<Longrightarrow> parentOf s c = Some p"
    and "\<And>p. distinct (childrenOf s p)"
    and "wf (parentRel s)"
    and "wf ((parentRel s)\<inverse>)"
    and "\<And>n. kindOf s n = TEXT_NODE \<Longrightarrow> childrenOf s n = []"
    and "\<And>n. kindOf s n = DOCUMENT_FRAGMENT_NODE \<Longrightarrow> parentOf s n = None"
  shows "wf_dom s"
  using assms unfolding wf_dom_def by blast

lemma wf_dom_removeNode:
  assumes w: "wf_dom s"
  shows "wf_dom (removeNode n s)"
proof (rule wf_domI)
  have sub: "parentRel (removeNode n s) \<subseteq> parentRel s"
    by (auto simp: parentRel_def)
  show "wf (parentRel (removeNode n s))"
    using wf_domD(4)[OF w] sub by (rule wf_subset)
  have "(parentRel (removeNode n s))\<inverse> \<subseteq> (parentRel s)\<inverse>"
    using sub by blast
  with wf_domD(5)[OF w] show "wf ((parentRel (removeNode n s))\<inverse>)"
    by (rule wf_subset)
next
  fix c p assume "parentOf (removeNode n s) c = Some p"
  then have "c \<noteq> n" "parentOf s c = Some p" by (auto split: if_splits)
  then show "c \<in> set (childrenOf (removeNode n s) p)"
    using wf_domD(1)[OF w] by simp
next
  fix c p assume c: "c \<in> set (childrenOf (removeNode n s) p)"
  show "parentOf (removeNode n s) c = Some p"
  proof (cases "parentOf s n = Some p")
    case True
    with c have "c \<noteq> n" "c \<in> set (childrenOf s p)" by auto
    then show ?thesis using wf_domD(2)[OF w] by simp
  next
    case False
    with c have "c \<in> set (childrenOf s p)" by simp
    then have "parentOf s c = Some p" using wf_domD(2)[OF w] by simp
    with False have "c \<noteq> n" by auto
    then show ?thesis using \<open>parentOf s c = Some p\<close> by simp
  qed
next
  fix p show "distinct (childrenOf (removeNode n s) p)"
    using wf_domD(3)[OF w] by (simp add: distinct_removeAll)
next
  fix m assume "kindOf (removeNode n s) m = TEXT_NODE"
  then show "childrenOf (removeNode n s) m = []"
    using wf_domD(6)[OF w, of m] by simp
next
  fix m assume "kindOf (removeNode n s) m = DOCUMENT_FRAGMENT_NODE"
  then show "parentOf (removeNode n s) m = None"
    using wf_domD(7)[OF w, of m] by simp
qed

lemma set_insertAt [simp]: "set (insertAt new ref cs) = set cs \<union> set new"
proof (cases ref)
  case None
  then show ?thesis by (simp add: insertAt_def)
next
  case (Some r)
  have "set cs = set (takeWhile (\<lambda>c. c \<noteq> r) cs) \<union> set (dropWhile (\<lambda>c. c \<noteq> r) cs)"
    by (metis set_append takeWhile_dropWhile_id)
  then show ?thesis using Some by (auto simp: insertAt_def)
qed

lemma distinct_insertAt:
  assumes "distinct cs" "distinct new" "set cs \<inter> set new = {}"
  shows "distinct (insertAt new ref cs)"
proof (cases ref)
  case None
  then show ?thesis using assms by (auto simp: insertAt_def)
next
  case (Some r)
  define t where "t = takeWhile (\<lambda>c. c \<noteq> r) cs"
  define d where "d = dropWhile (\<lambda>c. c \<noteq> r) cs"
  have cs: "cs = t @ d" by (simp add: t_def d_def)
  have "distinct (t @ new @ d)"
    using assms unfolding cs by auto
  then show ?thesis using Some by (simp add: insertAt_def t_def d_def)
qed

lemma insertAt_split:
  assumes "r \<notin> set pre"
  shows "insertAt new (Some r) (pre @ r # post) = pre @ new @ r # post"
  using assms by (induction pre) (auto simp: insertAt_def)

lemma parentRel_attach:
  assumes "parentOf s new = None"
  shows "parentRel (setParent new (Some p) (setChildren p cs s)) = insert (p, new) (parentRel s)"
  using assms by (auto simp: parentRel_def split: if_splits)

lemma wf_dom_attach:
  assumes w: "wf_dom s" and np: "parentOf s new = None" and na: "(new, p) \<notin> (parentRel s)\<^sup>*"
    and kp: "kindOf s p \<noteq> TEXT_NODE" and kn: "kindOf s new \<noteq> DOCUMENT_FRAGMENT_NODE"
  shows "wf_dom (setParent new (Some p) (setChildren p (insertAt [new] ref (childrenOf s p)) s))"
    (is "wf_dom ?s'")
proof (rule wf_domI)
  have rel: "parentRel ?s' = insert (p, new) (parentRel s)"
    using np by (rule parentRel_attach)
  show "wf (parentRel ?s')"
    unfolding rel using wf_domD(4)[OF w] na by (simp add: wf_insert)
  have "(insert (p, new) (parentRel s))\<inverse> = insert (new, p) ((parentRel s)\<inverse>)" by auto
  moreover have "(p, new) \<notin> ((parentRel s)\<inverse>)\<^sup>*"
    using na by (simp add: rtrancl_converse)
  ultimately show "wf ((parentRel ?s')\<inverse>)"
    unfolding rel using wf_domD(5)[OF w] by (simp add: wf_insert)
next
  fix c q assume "parentOf ?s' c = Some q"
  then show "c \<in> set (childrenOf ?s' q)"
    using wf_domD(1)[OF w, of c q] by (auto split: if_splits)
next
  fix c q assume c: "c \<in> set (childrenOf ?s' q)"
  have nn: "new \<notin> set (childrenOf s q)" for q
    using wf_domD(2)[OF w, of new q] np by auto
  show "parentOf ?s' c = Some q"
    using c nn wf_domD(2)[OF w, of c q] by (auto split: if_splits)
next
  fix q
  have "new \<notin> set (childrenOf s p)"
    using wf_domD(2)[OF w, of new p] np by auto
  then have "distinct (insertAt [new] ref (childrenOf s p))"
    using wf_domD(3)[OF w, of p] by (intro distinct_insertAt) auto
  then show "distinct (childrenOf ?s' q)"
    using wf_domD(3)[OF w, of q] by simp
next
  fix m assume "kindOf ?s' m = TEXT_NODE"
  then show "childrenOf ?s' m = []"
    using wf_domD(6)[OF w, of m] kp by auto
next
  fix m assume "kindOf ?s' m = DOCUMENT_FRAGMENT_NODE"
  then show "parentOf ?s' m = None"
    using wf_domD(7)[OF w, of m] kn by auto
qed

lemma not_ancestor_removeNode:
  assumes "(a, b) \<notin> (parentRel s)\<^sup>*"
  shows "(a, b) \<notin> (parentRel (removeNode n s))\<^sup>*"
proof -
  have "parentRel (removeNode n s) \<subseteq> parentRel s"
    by (auto simp: parentRel_def)
  then have "(parentRel (removeNode n s))\<^sup>* \<subseteq> (parentRel s)\<^sup>*"
    by (rule rtrancl_mono)
  with assms show ?thesis by blast
qed

text \<open>What \<open>insertBefore\<close> does with a node that is not a document fragment.\<close>

lemma insertBefore_node:
  assumes w: "wf_dom s" and na: "(new, p) \<notin> (parentRel s)\<^sup>*"
    and kp: "kindOf s p \<noteq> TEXT_NODE" and kn: "kindOf s new \<noteq> DOCUMENT_FRAGMENT_NODE"
    and r: "parentOf s r = Some p" and rn: "r \<noteq> new"
  shows "insertBefore p new (Some r) s =
           returns (setParent new (Some p)
              (setChildren p (insertAt [new] (Some r) (childrenOf (removeNode new s) p)) (removeNode new s)))"
  using assms by (simp add: insertBefore_def ancestorOrSelf_rtrancl[OF wf_domD(4)[OF w]])

lemma wf_dom_insertBefore_node:
  assumes w: "wf_dom s" and na: "(new, p) \<notin> (parentRel s)\<^sup>*"
    and kp: "kindOf s p \<noteq> TEXT_NODE" and kn: "kindOf s new \<noteq> DOCUMENT_FRAGMENT_NODE"
  shows "wf_dom (setParent new (Some p)
              (setChildren p (insertAt [new] ref (childrenOf (removeNode new s) p)) (removeNode new s)))"
proof -
  have "wf_dom (removeNode new s)" using w by (rule wf_dom_removeNode)
  moreover have "parentOf (removeNode new s) new = None" by simp
  moreover have "(new, p) \<notin> (parentRel (removeNode new s))\<^sup>*"
    using na by (rule not_ancestor_removeNode)
  ultimately show ?thesis using kp kn by (intro wf_dom_attach) simp_all
qed

lemma wf_no_back_edge:
  assumes "wf r" "(a, b) \<in> r\<^sup>+"
  shows "(b, a) \<notin> r\<^sup>*"
proof
  assume "(b, a) \<in> r\<^sup>*"
  with assms(2) have "(a, a) \<in> r\<^sup>+" by simp
  moreover have "wf (r\<^sup>+)" using assms(1) by (rule wf_trancl)
  ultimately show False by auto
qed

lemma child_not_ancestor:
  assumes w: "wf_dom s" and pc: "parentOf s c = Some n"
  shows "(c, n) \<notin> (parentRel s)\<^sup>*"
proof -
  have "(n, c) \<in> parentRel s" using pc by simp
  then have "(n, c) \<in> (parentRel s)\<^sup>+" by (rule r_into_trancl)
  then show ?thesis by (rule wf_no_back_edge[OF wf_domD(4)[OF w]])
qed

lemma grandchild_not_ancestor:
  assumes w: "wf_dom s" and pc: "parentOf s c = Some n" and pn: "parentOf s n = Some p"
  shows "(c, p) \<notin> (parentRel s)\<^sup>*"
proof -
  have "(p, n) \<in> parentRel s" "(n, c) \<in> parentRel s" using pc pn by simp_all
  then have "(p, c) \<in> (parentRel s)\<^sup>+" by (rule trancl.intros(2)[OF r_into_trancl])
  then show ?thesis by (rule wf_no_back_edge[OF wf_domD(4)[OF w]])
qed

lemma parent_neq:
  assumes w: "wf_dom s" and "parentOf s c = Some n"
  shows "c \<noteq> n"
  using child_not_ancestor[OF assms] by auto

definition dataOf :: "dom \<Rightarrow> node_id \<Rightarrow> node" where
  "dataOf s n = (heap s n)\<lparr>parentNode := None, childNodes := []\<rparr>"

lemma dataOf_setParent [simp]: "dataOf (setParent n p s) m = dataOf s m"
  by (simp add: dataOf_def setParent_def)

lemma dataOf_setChildren [simp]: "dataOf (setChildren n cs s) m = dataOf s m"
  by (simp add: dataOf_def setChildren_def)

lemma dataOf_removeNode [simp]: "dataOf (removeNode n s) m = dataOf s m"
  by (simp add: removeNode_def split: option.splits)

subsection \<open>Stores written down as a list of nodes\<close>

text \<open>A document for an example is given as the list of its nodes, node \<open>i\<close> at position \<open>i\<close>;
  \<open>dom_ok\<close> is the check, by computation, that such a list is a forest.\<close>


definition blank :: node where
  "blank = \<lparr>nodeType = ELEMENT_NODE, nodeName = [], nodeValue = None, parentNode = None,
             childNodes = [], cssStyle = [], attrs = []\<rparr>"

definition mkDom :: "node list \<Rightarrow> dom" where
  "mkDom ns = \<lparr>heap = (\<lambda>n. if n < length ns then ns ! n else blank), fresh = length ns\<rparr>"

definition node_ok :: "node list \<Rightarrow> nat \<Rightarrow> bool" where
  "node_ok ns i \<longleftrightarrow>
     (case parentNode (ns ! i) of None \<Rightarrow> True | Some p \<Rightarrow> p < i \<and> i \<in> set (childNodes (ns ! p))) \<and>
     (\<forall>c\<in>set (childNodes (ns ! i)). c < length ns \<and> parentNode (ns ! c) = Some i) \<and>
     distinct (childNodes (ns ! i)) \<and>
     (nodeType (ns ! i) = TEXT_NODE \<longrightarrow> childNodes (ns ! i) = []) \<and>
     (nodeType (ns ! i) = DOCUMENT_FRAGMENT_NODE \<longrightarrow> parentNode (ns ! i) = None)"

definition dom_ok :: "node list \<Rightarrow> bool" where
  "dom_ok ns \<longleftrightarrow> (\<forall>i<length ns. node_ok ns i)"

definition elementNode :: "string \<Rightarrow> node_id option \<Rightarrow> node_id list \<Rightarrow> node" where
  "elementNode name p cs = \<lparr>nodeType = ELEMENT_NODE, nodeName = name, nodeValue = None, parentNode = p,
             childNodes = cs, cssStyle = [], attrs = []\<rparr>"

definition textNode :: "string \<Rightarrow> node_id option \<Rightarrow> node" where
  "textNode v p = \<lparr>nodeType = TEXT_NODE, nodeName = ''#text'', nodeValue = Some v, parentNode = p,
             childNodes = [], cssStyle = [], attrs = []\<rparr>"

lemma parentOf_mkDom: "parentOf (mkDom ns) n = (if n < length ns then parentNode (ns ! n) else None)"
  by (simp add: parentOf_def mkDom_def blank_def)

lemma childrenOf_mkDom: "childrenOf (mkDom ns) n = (if n < length ns then childNodes (ns ! n) else [])"
  by (simp add: childrenOf_def mkDom_def blank_def)

lemma kindOf_mkDom: "kindOf (mkDom ns) n = (if n < length ns then nodeType (ns ! n) else ELEMENT_NODE)"
  by (simp add: kindOf_def mkDom_def blank_def)

lemma wf_dom_mkDom:
  assumes ok: "dom_ok ns"
  shows "wf_dom (mkDom ns)"
proof (rule wf_domI)
  have up: "p < c \<and> c < length ns" if "parentOf (mkDom ns) c = Some p" for c p
    using that ok by (auto simp: parentOf_mkDom dom_ok_def node_ok_def split: if_splits)
  have "parentRel (mkDom ns) \<subseteq> less_than"
    using up by auto
  with wf_less_than show "wf (parentRel (mkDom ns))" by (rule wf_subset)
  have "(parentRel (mkDom ns))\<inverse> \<subseteq> measure (\<lambda>n. length ns - n)"
  proof
    fix x assume "x \<in> (parentRel (mkDom ns))\<inverse>"
    then obtain c p where x: "x = (c, p)" "parentOf (mkDom ns) c = Some p" by auto
    from up[OF x(2)] have "length ns - c < length ns - p" by arith
    then show "x \<in> measure (\<lambda>n. length ns - n)" using x(1) by simp
  qed
  with wf_measure show "wf ((parentRel (mkDom ns))\<inverse>)" by (rule wf_subset)
next
  fix c p assume "parentOf (mkDom ns) c = Some p"
  then show "c \<in> set (childrenOf (mkDom ns) p)"
    using ok by (auto simp: parentOf_mkDom childrenOf_mkDom dom_ok_def node_ok_def split: if_splits)
next
  fix c p assume "c \<in> set (childrenOf (mkDom ns) p)"
  then show "parentOf (mkDom ns) c = Some p"
    using ok by (auto simp: parentOf_mkDom childrenOf_mkDom dom_ok_def node_ok_def split: if_splits)
next
  fix p show "distinct (childrenOf (mkDom ns) p)"
    using ok by (simp add: childrenOf_mkDom dom_ok_def node_ok_def)
next
  fix n assume "kindOf (mkDom ns) n = TEXT_NODE"
  then show "childrenOf (mkDom ns) n = []"
    using ok by (auto simp: kindOf_mkDom childrenOf_mkDom dom_ok_def node_ok_def split: if_splits)
next
  fix n assume "kindOf (mkDom ns) n = DOCUMENT_FRAGMENT_NODE"
  then show "parentOf (mkDom ns) n = None"
    using ok by (auto simp: kindOf_mkDom parentOf_mkDom dom_ok_def node_ok_def split: if_splits)
qed

lemma fresh_ok_mkDom: "fresh_ok (mkDom ns)"
  by (simp add: fresh_ok_def parentOf_mkDom childrenOf_mkDom) (simp add: mkDom_def)

section \<open>Structural mutators of \<open>src/core/dom.ts\<close>\<close>

text \<open>\<open>Dom.safeRemove\<close>.\<close>

definition safeRemove :: "node_id option \<Rightarrow> dom \<Rightarrow> dom outcome" where
  "safeRemove node s =
     (case node of
        None \<Rightarrow> returns s
      | Some n \<Rightarrow> (case parentOf s n of None \<Rightarrow> returns s | Some p \<Rightarrow> removeChild p n s))"

text \<open>\<open>Dom.unwrap\<close>: the loop moves the first child in front of the node until none is left.\<close>

partial_function (option) unwrap_loop :: "node_id \<Rightarrow> node_id \<Rightarrow> dom \<Rightarrow> dom outcome" where
  "unwrap_loop parent node s =
     (case firstChild s node of
        None \<Rightarrow> returns s
      | Some c \<Rightarrow> andThen (insertBefore parent c (Some node) s) (unwrap_loop parent node))"

definition unwrap :: "node_id \<Rightarrow> dom \<Rightarrow> dom outcome" where
  "unwrap node s =
     (case parentOf s node of
        None \<Rightarrow> returns s
      | Some parent \<Rightarrow> andThen (unwrap_loop parent node s) (safeRemove (Some node)))"

lemma firstChild_Cons: "childrenOf s n = c # cs \<Longrightarrow> firstChild s n = Some c"
  by (simp add: firstChild_def)

lemma firstChild_Nil: "childrenOf s n = [] \<Longrightarrow> firstChild s n = None"
  by (simp add: firstChild_def)

lemma unwrap_loop_moves:
  assumes "wf_dom s" "parentOf s n = Some p" "childrenOf s p = pre @ n # post" "childrenOf s n = cs"
  shows "\<exists>s'. unwrap_loop p n s = returns s' \<and> wf_dom s' \<and>
           childrenOf s' p = pre @ cs @ n # post \<and> childrenOf s' n = [] \<and>
           parentOf s' n = Some p \<and>
           (\<forall>c\<in>set cs. parentOf s' c = Some p) \<and>
           (\<forall>m. m \<notin> set cs \<longrightarrow> parentOf s' m = parentOf s m) \<and>
           (\<forall>m. m \<noteq> p \<and> m \<noteq> n \<longrightarrow> childrenOf s' m = childrenOf s m) \<and>
           (\<forall>m. dataOf s' m = dataOf s m) \<and> fresh s' = fresh s"
  using assms
proof (induction cs arbitrary: s pre)
  case Nil
  then show ?case by (subst unwrap_loop.simps) (simp add: firstChild_Nil)
next
  case (Cons c cs)
  note w = \<open>wf_dom s\<close>
  have pc: "parentOf s c = Some n"
    using wf_domD(2)[OF w, of c n] Cons.prems(4) by simp
  have cn: "c \<noteq> n" using parent_neq[OF w pc] .
  have np: "n \<noteq> p" using parent_neq[OF w Cons.prems(2)] .
  have cp: "c \<noteq> p" using grandchild_not_ancestor[OF w pc Cons.prems(2)] by auto
  have dn: "distinct (c # cs)" using wf_domD(3)[OF w, of n] Cons.prems(4) by simp
  have dp: "distinct (pre @ n # post)" using wf_domD(3)[OF w, of p] Cons.prems(3) by simp
  have kp: "kindOf s p \<noteq> TEXT_NODE"
    using wf_domD(6)[OF w, of p] Cons.prems(3) by auto
  have kc: "kindOf s c \<noteq> DOCUMENT_FRAGMENT_NODE"
    using wf_domD(7)[OF w, of c] pc by auto
  define s2 where "s2 = setParent c (Some p)
              (setChildren p (insertAt [c] (Some n) (childrenOf (removeNode c s) p)) (removeNode c s))"
  have ins: "insertBefore p c (Some n) s = returns s2"
    unfolding s2_def
    using w grandchild_not_ancestor[OF w pc Cons.prems(2)] kp kc Cons.prems(2) cn
    by (intro insertBefore_node) auto
  have w2: "wf_dom s2"
    unfolding s2_def
    using w grandchild_not_ancestor[OF w pc Cons.prems(2)] kp kc
    by (rule wf_dom_insertBefore_node)
  have c2p: "childrenOf s2 p = (pre @ [c]) @ n # post"
    using pc np dp Cons.prems(3) by (simp add: s2_def insertAt_split)
  have c2n: "childrenOf s2 n = cs"
    using pc np dn Cons.prems(4) by (simp add: s2_def)
  have p2n: "parentOf s2 n = Some p"
    using cn Cons.prems(2) by (simp add: s2_def)
  from Cons.IH[OF w2 p2n c2p c2n] obtain s' where s':
    "unwrap_loop p n s2 = returns s'" "wf_dom s'"
    "childrenOf s' p = (pre @ [c]) @ cs @ n # post" "childrenOf s' n = []"
    "parentOf s' n = Some p" "\<forall>c\<in>set cs. parentOf s' c = Some p"
    "\<forall>m. m \<notin> set cs \<longrightarrow> parentOf s' m = parentOf s2 m"
    "\<forall>m. m \<noteq> p \<and> m \<noteq> n \<longrightarrow> childrenOf s' m = childrenOf s2 m"
    "\<forall>m. dataOf s' m = dataOf s2 m" "fresh s' = fresh s2"
    by blast
  have run: "unwrap_loop p n s = returns s'"
    using ins s'(1) Cons.prems(4) by (subst unwrap_loop.simps) (simp add: firstChild_Cons)
  have "parentOf s' c = Some p"
    using s'(7) dn by (simp add: s2_def)
  moreover have "\<forall>m. m \<notin> set (c # cs) \<longrightarrow> parentOf s' m = parentOf s m"
    using s'(7) by (simp add: s2_def)
  moreover have "\<forall>m. m \<noteq> p \<and> m \<noteq> n \<longrightarrow> childrenOf s' m = childrenOf s m"
    using s'(8) pc by (simp add: s2_def)
  moreover have "\<forall>m. dataOf s' m = dataOf s m" using s'(9) by (simp add: s2_def)
  moreover have "fresh s' = fresh s" using s'(10) by (simp add: s2_def)
  ultimately show ?case using run s'(2,3,4,5,6) by simp
qed

subsection \<open>\<open>Dom.unwrap\<close>\<close>

text \<open>
  Claim C7. For a node with a parent, \<open>Dom.unwrap\<close> returns, the children of the node
  stand in the parent at the node's former position in their original order, each of them
  has the parent as its parent, the node itself is out of the tree and left without
  children, and nothing else changes; for a node with no parent the call changes nothing.
  The example is the inner span of \<open><div><span>a<b>b</b></span></div>\<close>.
\<close>

theorem unwrap_splices:
  assumes w: "wf_dom s"
  shows "(parentOf s n = None \<longrightarrow> unwrap n s = returns s) \<and>
         (\<forall>p pre post. parentOf s n = Some p \<and> childrenOf s p = pre @ n # post \<longrightarrow>
            (\<exists>s'. unwrap n s = returns s' \<and> wf_dom s' \<and>
                  childrenOf s' p = pre @ childrenOf s n @ post \<and>
                  parentOf s' n = None \<and> childrenOf s' n = [] \<and>
                  (\<forall>c\<in>set (childrenOf s n). parentOf s' c = Some p) \<and>
                  (\<forall>m. m \<noteq> n \<and> m \<notin> set (childrenOf s n) \<longrightarrow> parentOf s' m = parentOf s m) \<and>
                  (\<forall>m. m \<noteq> p \<and> m \<noteq> n \<longrightarrow> childrenOf s' m = childrenOf s m) \<and>
                  (\<forall>m. dataOf s' m = dataOf s m)))"
proof (intro conjI allI impI)
  assume "parentOf s n = None"
  then show "unwrap n s = returns s" by (simp add: unwrap_def)
next
  fix p pre post
  assume a: "parentOf s n = Some p \<and> childrenOf s p = pre @ n # post"
  from unwrap_loop_moves[OF w, of n p pre post "childrenOf s n"] a
  obtain s1 where s1: "unwrap_loop p n s = returns s1" "wf_dom s1"
    "childrenOf s1 p = pre @ childrenOf s n @ n # post" "childrenOf s1 n = []"
    "parentOf s1 n = Some p" "\<forall>c\<in>set (childrenOf s n). parentOf s1 c = Some p"
    "\<forall>m. m \<notin> set (childrenOf s n) \<longrightarrow> parentOf s1 m = parentOf s m"
    "\<forall>m. m \<noteq> p \<and> m \<noteq> n \<longrightarrow> childrenOf s1 m = childrenOf s m"
    "\<forall>m. dataOf s1 m = dataOf s m"
    by auto
  have d: "distinct (pre @ childrenOf s n @ n # post)"
    using wf_domD(3)[OF s1(2), of p] s1(3) by simp
  have np: "n \<noteq> p" using parent_neq[OF w] a by blast
  have nc: "n \<notin> set (childrenOf s n)" using d by auto
  have run: "unwrap n s = returns (removeNode n s1)"
    using a s1(1,5) by (simp add: unwrap_def safeRemove_def removeChild_def)
  have "childrenOf (removeNode n s1) p = pre @ childrenOf s n @ post"
    using s1(3,5) d by simp
  moreover have "wf_dom (removeNode n s1)" using s1(2) by (rule wf_dom_removeNode)
  moreover have "childrenOf (removeNode n s1) n = []" using s1(4,5) np by simp
  moreover have "\<forall>c\<in>set (childrenOf s n). parentOf (removeNode n s1) c = Some p"
    using s1(6) nc by auto
  moreover have "\<forall>m. m \<noteq> n \<and> m \<notin> set (childrenOf s n) \<longrightarrow> parentOf (removeNode n s1) m = parentOf s m"
    using s1(7) by simp
  moreover have "\<forall>m. m \<noteq> p \<and> m \<noteq> n \<longrightarrow> childrenOf (removeNode n s1) m = childrenOf s m"
    using s1(5,8) by simp
  moreover have "\<forall>m. dataOf (removeNode n s1) m = dataOf s m" using s1(9) by simp
  ultimately show "\<exists>s'. unwrap n s = returns s' \<and> wf_dom s' \<and>
                  childrenOf s' p = pre @ childrenOf s n @ post \<and>
                  parentOf s' n = None \<and> childrenOf s' n = [] \<and>
                  (\<forall>c\<in>set (childrenOf s n). parentOf s' c = Some p) \<and>
                  (\<forall>m. m \<noteq> n \<and> m \<notin> set (childrenOf s n) \<longrightarrow> parentOf s' m = parentOf s m) \<and>
                  (\<forall>m. m \<noteq> p \<and> m \<noteq> n \<longrightarrow> childrenOf s' m = childrenOf s m) \<and>
                  (\<forall>m. dataOf s' m = dataOf s m)"
    using run by simp
qed

text \<open>\<open><div><span>a<b>b</b></span></div>\<close>: node 0 is the div, 1 the span, 2 the text a,
  3 the b element, 4 the text b.\<close>

definition unwrap_example :: "node list" where
  "unwrap_example =
     [elementNode ''DIV'' None [1], elementNode ''SPAN'' (Some 0) [2, 3], textNode ''a'' (Some 1),
      elementNode ''B'' (Some 1) [4], textNode ''b'' (Some 3)]"

lemma dom_ok_unwrap_example: "dom_ok unwrap_example"
  by (simp add: dom_ok_def node_ok_def unwrap_example_def elementNode_def textNode_def All_less_Suc)

theorem unwrap_splices_witness:
  "wf_dom (mkDom unwrap_example) \<and>
   (\<exists>s'. unwrap 1 (mkDom unwrap_example) = returns s' \<and>
      childrenOf s' 0 = [2, 3] \<and> parentOf s' 2 = Some 0 \<and> parentOf s' 3 = Some 0 \<and>
      childrenOf s' 3 = [4] \<and> parentOf s' 1 = None \<and> childrenOf s' 1 = [])"
proof -
  let ?s = "mkDom unwrap_example"
  have w: "wf_dom ?s" using dom_ok_unwrap_example by (rule wf_dom_mkDom)
  have p: "parentOf ?s 1 = Some 0 \<and> childrenOf ?s 0 = [] @ 1 # []"
    by (simp add: parentOf_mkDom childrenOf_mkDom unwrap_example_def elementNode_def)
  have c: "childrenOf ?s 1 = [2, 3]" "childrenOf ?s 3 = [4]"
    by (simp_all add: childrenOf_mkDom unwrap_example_def elementNode_def)
  from unwrap_splices[OF w, of 1, THEN conjunct2, rule_format, of 0 "[]" "[]", OF p]
  obtain s' where s': "unwrap 1 ?s = returns s'" "childrenOf s' 0 = [] @ childrenOf ?s 1 @ []"
    "parentOf s' 1 = None" "childrenOf s' 1 = []"
    "\<forall>c\<in>set (childrenOf ?s 1). parentOf s' c = Some 0"
    "\<forall>m. m \<noteq> 0 \<and> m \<noteq> 1 \<longrightarrow> childrenOf s' m = childrenOf ?s m"
    by blast
  have "childrenOf s' 3 = [4]" using s'(6) c(2) by simp
  with s' c(1) w show ?thesis by auto
qed



section \<open>Strings, element creation and the editor object\<close>

text \<open>\<open>String.prototype.toLowerCase\<close> and \<open>toUpperCase\<close>, on the ASCII letters that tag names
  are made of.\<close>

definition toLowerCase :: "string \<Rightarrow> string" where
  "toLowerCase = map (\<lambda>c. case map_of (zip ''ABCDEFGHIJKLMNOPQRSTUVWXYZ'' ''abcdefghijklmnopqrstuvwxyz'') c of
                            None \<Rightarrow> c | Some d \<Rightarrow> d)"

definition toUpperCase :: "string \<Rightarrow> string" where
  "toUpperCase = map (\<lambda>c. case map_of (zip ''abcdefghijklmnopqrstuvwxyz'' ''ABCDEFGHIJKLMNOPQRSTUVWXYZ'') c of
                            None \<Rightarrow> c | Some d \<Rightarrow> d)"


text \<open>
  Modelled from the spec: the element factory (\<open>createInside.element\<close>, section 6) is not
  under \<open>src/\<close>. It makes a new element of the given tag, attached nowhere; the new node
  takes the next unused identity.
\<close>

definition createElement :: "string \<Rightarrow> dom \<Rightarrow> node_id \<times> dom" where
  "createElement tag s =
     (fresh s, s\<lparr>heap := (heap s)(fresh s := elementNode (toUpperCase tag) None []), fresh := Suc (fresh s)\<rparr>)"

text \<open>
  Modelled from the spec: the Selection Manager is not under \<open>src/\<close>. Section 3 describes
  \<open>save\<close> as handing out an opaque marker and \<open>restore\<close> as consuming it; the model keeps
  the log of these calls, each with the document as it stood at the call, and leaves the
  document alone.
\<close>

datatype sel_event = Save nat dom | Restore nat dom

record jodit =
  doc :: dom
  editor :: node_id
  area :: node_id
  selLog :: "sel_event list"

definition save :: "jodit \<Rightarrow> nat \<times> jodit" where
  "save j = (length (selLog j), j\<lparr>selLog := selLog j @ [Save (length (selLog j)) (doc j)]\<rparr>)"

definition restore :: "nat \<Rightarrow> jodit \<Rightarrow> jodit" where
  "restore m j = j\<lparr>selLog := selLog j @ [Restore m (doc j)]\<rparr>"

text \<open>\<open>Dom.wrap\<close>; the tag is a tag name (\<open>Inl\<close>) or an element (\<open>Inr\<close>).\<close>

definition wrap :: "node_id \<Rightarrow> string + node_id \<Rightarrow> jodit \<Rightarrow> (node_id option \<times> jodit) outcome" where
  "wrap current tag j =
     (let selInfo = fst (save j); j1 = snd (save j);
          made = (case tag of Inl name \<Rightarrow> createElement name (doc j1) | Inr e \<Rightarrow> (e, doc j1));
          wrapper = fst made; d1 = snd made
      in case parentOf d1 current of
           None \<Rightarrow> returns (None, j1\<lparr>doc := d1\<rparr>)
         | Some p \<Rightarrow>
             andThen (insertBefore p wrapper (Some current) d1) (\<lambda>d2.
             andThen (appendChild wrapper current d2) (\<lambda>d3.
             returns (Some wrapper, restore selInfo (j1\<lparr>doc := d3\<rparr>)))))"

lemma parentOf_createElement:
  "fresh_ok s \<Longrightarrow> parentOf (snd (createElement tag s)) n = parentOf s n"
  by (simp add: createElement_def parentOf_def fresh_ok_def elementNode_def)

lemma childrenOf_createElement:
  "fresh_ok s \<Longrightarrow> childrenOf (snd (createElement tag s)) n = childrenOf s n"
  by (simp add: createElement_def childrenOf_def fresh_ok_def elementNode_def)

lemma kindOf_createElement:
  "kindOf (snd (createElement tag s)) n = (if n = fresh s then ELEMENT_NODE else kindOf s n)"
  by (simp add: createElement_def kindOf_def elementNode_def)

lemma fst_createElement [simp]: "fst (createElement tag s) = fresh s"
  by (simp add: createElement_def)

lemma fresh_createElement [simp]: "fresh (snd (createElement tag s)) = Suc (fresh s)"
  by (simp add: createElement_def)

lemma heap_createElement:
  "heap (snd (createElement tag s)) n = (if n = fresh s then elementNode (toUpperCase tag) None [] else heap s n)"
  by (simp add: createElement_def)

lemma wf_dom_createElement:
  assumes w: "wf_dom s" and f: "fresh_ok s"
  shows "wf_dom (snd (createElement tag s))"
proof (rule wf_domI)
  let ?s = "snd (createElement tag s)"
  have p: "parentOf ?s = parentOf s" using f by (auto simp: parentOf_createElement)
  have c: "childrenOf ?s = childrenOf s" using f by (auto simp: childrenOf_createElement)
  have r: "parentRel ?s = parentRel s" by (simp add: parentRel_def p)
  show "wf (parentRel ?s)" unfolding r by (rule wf_domD(4)[OF w])
  show "wf ((parentRel ?s)\<inverse>)" unfolding r by (rule wf_domD(5)[OF w])
  show "\<And>c p. parentOf ?s c = Some p \<Longrightarrow> c \<in> set (childrenOf ?s p)"
    unfolding p c by (rule wf_domD(1)[OF w])
  show "\<And>c p. c \<in> set (childrenOf ?s p) \<Longrightarrow> parentOf ?s c = Some p"
    unfolding p c by (rule wf_domD(2)[OF w])
  show "\<And>p. distinct (childrenOf ?s p)"
    unfolding c by (rule wf_domD(3)[OF w])
  show "childrenOf ?s n = []" if "kindOf ?s n = TEXT_NODE" for n
  proof -
    from that have "kindOf s n = TEXT_NODE"
      by (simp add: kindOf_createElement split: if_splits)
    then show ?thesis unfolding c by (rule wf_domD(6)[OF w])
  qed
  show "parentOf ?s n = None" if "kindOf ?s n = DOCUMENT_FRAGMENT_NODE" for n
  proof -
    from that have "kindOf s n = DOCUMENT_FRAGMENT_NODE"
      by (simp add: kindOf_createElement split: if_splits)
    then show ?thesis unfolding p by (rule wf_domD(7)[OF w])
  qed
qed

lemma fresh_ok_createElement:
  assumes "fresh_ok s"
  shows "fresh_ok (snd (createElement tag s))"
  unfolding fresh_ok_def parentOf_createElement[OF assms] childrenOf_createElement[OF assms]
  using assms by (simp add: fresh_ok_def)

lemma insertBefore_returns:
  assumes w: "wf_dom s" and na: "(new, p) \<notin> (parentRel s)\<^sup>*"
    and kp: "kindOf s p \<noteq> TEXT_NODE" and kn: "kindOf s new \<noteq> DOCUMENT_FRAGMENT_NODE"
    and r: "case ref of None \<Rightarrow> True | Some r \<Rightarrow> parentOf s r = Some p \<and> r \<noteq> new"
  shows "insertBefore p new ref s =
           returns (setParent new (Some p)
              (setChildren p (insertAt [new] ref (childrenOf (removeNode new s) p)) (removeNode new s)))"
  using na kp kn r
  by (cases ref) (auto simp: insertBefore_def ancestorOrSelf_rtrancl[OF wf_domD(4)[OF w]])

lemma childrenOf_removeNode_wf:
  assumes w: "wf_dom s"
  shows "childrenOf (removeNode n s) m = removeAll n (childrenOf s m)"
proof (cases "parentOf s n = Some m")
  case True
  then show ?thesis by simp
next
  case False
  then have "n \<notin> set (childrenOf s m)" using wf_domD(2)[OF w, of n m] by auto
  then show ?thesis using False by simp
qed

lemma not_ancestor_via_parent:
  assumes "parentOf s b = Some p" "a \<noteq> b" "(a, p) \<notin> (parentRel s)\<^sup>*"
  shows "(a, b) \<notin> (parentRel s)\<^sup>*"
proof
  assume "(a, b) \<in> (parentRel s)\<^sup>*"
  then show False using assms by (cases rule: rtranclE) auto
qed

lemma wrap_moves:
  assumes w: "wf_dom d" and pc: "parentOf d current = Some p"
    and cp: "childrenOf d p = pre @ current # post"
    and nw: "(wr, current) \<notin> (parentRel d)\<^sup>*" and kw: "kindOf d wr = ELEMENT_NODE"
  shows "\<exists>d2 d3. insertBefore p wr (Some current) d = returns d2 \<and>
           appendChild wr current d2 = returns d3 \<and> wf_dom d3 \<and>
           childrenOf d3 p = removeAll wr pre @ wr # removeAll wr post \<and>
           childrenOf d3 wr = childrenOf d wr @ [current] \<and>
           parentOf d3 current = Some wr \<and> parentOf d3 wr = Some p \<and>
           (\<forall>m. m \<noteq> wr \<and> m \<noteq> current \<longrightarrow> parentOf d3 m = parentOf d m) \<and>
           (\<forall>m. m \<noteq> wr \<and> m \<noteq> p \<longrightarrow> childrenOf d3 m = removeAll wr (childrenOf d m)) \<and>
           (\<forall>m. dataOf d3 m = dataOf d m) \<and> fresh d3 = fresh d"
proof -
  have wc: "wr \<noteq> current" using nw by auto
  have wp: "(wr, p) \<notin> (parentRel d)\<^sup>*"
  proof
    assume "(wr, p) \<in> (parentRel d)\<^sup>*"
    moreover have "(p, current) \<in> parentRel d" using pc by simp
    ultimately have "(wr, current) \<in> (parentRel d)\<^sup>*" by (rule rtrancl_into_rtrancl)
    with nw show False by contradiction
  qed
  then have wnp: "wr \<noteq> p" by auto
  have cnp: "current \<noteq> p" using parent_neq[OF w pc] .
  have kp: "kindOf d p \<noteq> TEXT_NODE" using wf_domD(6)[OF w, of p] cp by auto
  have kc: "kindOf d current \<noteq> DOCUMENT_FRAGMENT_NODE" using wf_domD(7)[OF w, of current] pc by auto
  have dp: "distinct (pre @ current # post)" using wf_domD(3)[OF w, of p] cp by simp
  define d2 where "d2 = setParent wr (Some p)
              (setChildren p (insertAt [wr] (Some current) (childrenOf (removeNode wr d) p)) (removeNode wr d))"
  have i1: "insertBefore p wr (Some current) d = returns d2"
    unfolding d2_def using w wp kp kw pc wc by (intro insertBefore_returns) auto
  have w2: "wf_dom d2"
    unfolding d2_def using w wp kp kw by (intro wf_dom_insertBefore_node) auto
  have c2p: "childrenOf d2 p = removeAll wr pre @ wr # current # removeAll wr post"
    using wc dp by (simp add: d2_def childrenOf_removeNode_wf[OF w] cp insertAt_split del: childrenOf_removeNode)
  have nself: "n \<notin> set (childrenOf d n)" for n
    using wf_domD(2)[OF w, of n n] parent_neq[OF w, of n n] by auto
  have c2w: "childrenOf d2 wr = childrenOf d wr"
    using wnp nself[of wr] by (simp add: d2_def childrenOf_removeNode_wf[OF w] del: childrenOf_removeNode)
  have p2c: "parentOf d2 current = Some p" using wc pc by (simp add: d2_def)
  have p2w: "parentOf d2 wr = Some p" by (simp add: d2_def)
  have k2: "kindOf d2 = kindOf d" by (auto simp: d2_def)
  have cw2: "(current, wr) \<notin> (parentRel d2)\<^sup>*"
    using p2w wc[symmetric] child_not_ancestor[OF w2 p2c] by (rule not_ancestor_via_parent)
  define d3 where "d3 = setParent current (Some wr)
              (setChildren wr (insertAt [current] None (childrenOf (removeNode current d2) wr)) (removeNode current d2))"
  have i2: "appendChild wr current d2 = returns d3"
    unfolding d3_def appendChild_def using w2 cw2 kw kc by (intro insertBefore_returns) (auto simp: k2)
  have w3: "wf_dom d3"
    unfolding d3_def using w2 cw2 kw kc by (intro wf_dom_insertBefore_node) (auto simp: k2)
  have cnw: "current \<notin> set (childrenOf d wr)"
    using wf_domD(2)[OF w, of current wr] pc wnp by auto
  have c3w: "childrenOf d3 wr = childrenOf d wr @ [current]"
    using cnw by (simp add: d3_def childrenOf_removeNode_wf[OF w2] c2w insertAt_def del: childrenOf_removeNode)
  have c3p: "childrenOf d3 p = removeAll wr pre @ wr # removeAll wr post"
    using wnp wc dp by (simp add: d3_def childrenOf_removeNode_wf[OF w2] c2p del: childrenOf_removeNode)
  have p3: "\<forall>m. m \<noteq> wr \<and> m \<noteq> current \<longrightarrow> parentOf d3 m = parentOf d m"
    by (simp add: d3_def d2_def)
  have c3: "\<forall>m. m \<noteq> wr \<and> m \<noteq> p \<longrightarrow> childrenOf d3 m = removeAll wr (childrenOf d m)"
  proof (intro allI impI)
    fix m assume m: "m \<noteq> wr \<and> m \<noteq> p"
    then have "current \<notin> set (childrenOf d m)"
      using wf_domD(2)[OF w, of current m] pc by auto
    moreover have "childrenOf d3 m = removeAll current (childrenOf d2 m)"
      using m by (simp add: d3_def childrenOf_removeNode_wf[OF w2] del: childrenOf_removeNode)
    moreover have "childrenOf d2 m = removeAll wr (childrenOf d m)"
      using m by (simp add: d2_def childrenOf_removeNode_wf[OF w] del: childrenOf_removeNode)
    ultimately show "childrenOf d3 m = removeAll wr (childrenOf d m)"
      by simp
  qed
  have "parentOf d3 current = Some wr" "parentOf d3 wr = Some p"
    using wc by (simp_all add: d3_def d2_def)
  moreover have "\<forall>m. dataOf d3 m = dataOf d m" "fresh d3 = fresh d" by (simp_all add: d3_def d2_def)
  ultimately show ?thesis using i1 i2 w3 c3p c3w p3 c3 by blast
qed

lemma leaf_not_proper_ancestor:
  assumes w: "wf_dom s" and "childrenOf s a = []" "(a, b) \<in> (parentRel s)\<^sup>*"
  shows "a = b"
proof (rule ccontr)
  assume "a \<noteq> b"
  with assms(3) obtain x where "(a, x) \<in> parentRel s"
    by (meson converse_rtranclE)
  then have "x \<in> set (childrenOf s a)" using wf_domD(1)[OF w, of x a] by simp
  with assms(2) show False by simp
qed

lemma doc_save [simp]: "doc (snd (save j)) = doc j"
  by (simp add: save_def)

lemma selLog_save [simp]: "selLog (snd (save j)) = selLog j @ [Save (length (selLog j)) (doc j)]"
  by (simp add: save_def)

lemma fst_save [simp]: "fst (save j) = length (selLog j)"
  by (simp add: save_def)

definition wrap_example :: jodit where
  "wrap_example = \<lparr>doc = mkDom [elementNode ''P'' None [1], textNode ''text'' (Some 0)],
                     editor = 0, area = 0, selLog = []\<rparr>"

lemma dom_ok_wrap_example: "dom_ok [elementNode ''P'' None [1], textNode ''text'' (Some 0)]"
  by (simp add: dom_ok_def node_ok_def elementNode_def textNode_def All_less_Suc)



lemma fresh_mkDom: "fresh (mkDom ns) = length ns"
  by (simp add: mkDom_def)


text \<open>
  Claim C10. On a node with no parent \<open>Dom.wrap\<close> returns null; no parent link and no
  child list of the document changes, every node that existed keeps its content, a
  wrapper made for the call stays outside every child list, and the selection log gains
  the save and no restore.
\<close>

theorem wrap_detached:
  assumes w: "wf_dom (doc j)" and f: "fresh_ok (doc j)" and np: "parentOf (doc j) current = None"
  shows "\<exists>j'. wrap current tag j = returns (None, j') \<and>
           (\<forall>n. parentOf (doc j') n = parentOf (doc j) n \<and> childrenOf (doc j') n = childrenOf (doc j) n) \<and>
           (\<forall>n. n \<noteq> fresh (doc j) \<longrightarrow> heap (doc j') n = heap (doc j) n) \<and>
           (case tag of
              Inl name \<Rightarrow> parentOf (doc j') (fresh (doc j)) = None \<and>
                          (\<forall>m. fresh (doc j) \<notin> set (childrenOf (doc j') m))
            | Inr e \<Rightarrow> doc j' = doc j) \<and>
           selLog j' = selLog j @ [Save (length (selLog j)) (doc j)]"
proof (cases tag)
  case (Inl name)
  let ?d = "snd (createElement name (doc j))"
  have p: "parentOf ?d = parentOf (doc j)" using f by (auto simp: parentOf_createElement)
  have c: "childrenOf ?d = childrenOf (doc j)" using f by (auto simp: childrenOf_createElement)
  have run: "wrap current tag j = returns (None, (snd (save j))\<lparr>doc := ?d\<rparr>)"
    using np Inl by (simp add: wrap_def Let_def p)
  have pf: "parentOf (doc j) (fresh (doc j)) = None" using f by (simp add: fresh_ok_def)
  have "fresh (doc j) \<notin> set (childrenOf (doc j) m)" for m
    using wf_domD(2)[OF w, of "fresh (doc j)" m] pf by auto
  then show ?thesis
    using run Inl pf by (simp add: p c heap_createElement)
next
  case (Inr e)
  have "wrap current tag j = returns (None, (snd (save j))\<lparr>doc := doc j\<rparr>)"
    using np Inr by (simp add: wrap_def Let_def)
  then show ?thesis using Inr by simp
qed

definition detached_example :: jodit where
  "detached_example = \<lparr>doc = mkDom [elementNode ''SPAN'' None []], editor = 0, area = 0, selLog = []\<rparr>"

theorem wrap_detached_witness:
  "wf_dom (doc detached_example) \<and> fresh_ok (doc detached_example) \<and>
   parentOf (doc detached_example) 0 = None \<and>
   (\<exists>j'. wrap 0 (Inl ''div'') detached_example = returns (None, j') \<and>
      childrenOf (doc j') 0 = [] \<and> parentOf (doc j') 0 = None \<and> parentOf (doc j') 1 = None \<and>
      selLog j' = [Save 0 (doc detached_example)])"
proof -
  let ?j = "detached_example"
  have ok: "dom_ok [elementNode ''SPAN'' None []]"
    by (simp add: dom_ok_def node_ok_def elementNode_def)
  have w: "wf_dom (doc ?j)" unfolding detached_example_def using wf_dom_mkDom[OF ok] by simp
  have f: "fresh_ok (doc ?j)" unfolding detached_example_def using fresh_ok_mkDom by simp
  have np: "parentOf (doc ?j) 0 = None" "childrenOf (doc ?j) 0 = []" "parentOf (doc ?j) 1 = None"
    "selLog ?j = []"
    by (simp_all add: detached_example_def parentOf_mkDom childrenOf_mkDom elementNode_def)
  from wrap_detached[OF w f np(1), of "Inl ''div''"]
  show ?thesis using w f np by auto
qed

section \<open>The module registry and \<open>View.getInstance\<close>\<close>

text \<open>
  The registry \<open>modules\<close> of \<open>core/global\<close> maps a name to whatever was stored under it: a
  constructor function or some other value; a name that was never stored reads as
  undefined (\<open>None\<close>). A constructor is given the view's identity and the options, and
  makes a component.
\<close>

type_synonym options = "string option"

datatype component = Component string string options

datatype module_value = Constructor "string \<Rightarrow> options \<Rightarrow> component" | NotAFunction

type_synonym registry = "string \<Rightarrow> module_value option"

record view =
  viewId :: string
  modulesInstances :: "string \<Rightarrow> component option"

definition isFunction :: "module_value option \<Rightarrow> bool" where
  "isFunction v = (case v of Some (Constructor c) \<Rightarrow> True | _ \<Rightarrow> False)"

text \<open>\<open>View.getInstance\<close> as \<open>src/unnamed/part_001\<close> has it.\<close>

definition getInstance_part_001 ::
    "registry \<Rightarrow> string \<Rightarrow> options \<Rightarrow> view \<Rightarrow> error + (component \<times> view)" where
  "getInstance_part_001 modules moduleName opts v =
     (if \<not> isFunction (modules moduleName) then Inl (JoditError ''Need real module name'')
      else case modulesInstances v moduleName of
             None \<Rightarrow>
               (case modules moduleName of
                  Some (Constructor c) \<Rightarrow>
                    Inr (c (viewId v) opts,
                         v\<lparr>modulesInstances := (modulesInstances v)(moduleName \<mapsto> c (viewId v) opts)\<rparr>)
                | _ \<Rightarrow> Inl TypeError)
           | Some inst \<Rightarrow> Inr (inst, v))"

text \<open>\<open>View.getInstance\<close> as \<open>src/unnamed/part_002\<close> has it: the test of \<open>isFunction\<close> is
  not negated, and \<open>new\<close> on a value that is not a function throws a TypeError.\<close>

definition getInstance_part_002 ::
    "registry \<Rightarrow> string \<Rightarrow> options \<Rightarrow> view \<Rightarrow> error + (component \<times> view)" where
  "getInstance_part_002 modules moduleName opts v =
     (if isFunction (modules moduleName) then Inl (JoditError ''Need real module name'')
      else case modulesInstances v moduleName of
             None \<Rightarrow>
               (case modules moduleName of
                  Some (Constructor c) \<Rightarrow>
                    Inr (c (viewId v) opts,
                         v\<lparr>modulesInstances := (modulesInstances v)(moduleName \<mapsto> c (viewId v) opts)\<rparr>)
                | _ \<Rightarrow> Inl TypeError)
           | Some inst \<Rightarrow> Inr (inst, v))"

text \<open>What claim C9 says, met by the version of \<open>src/unnamed/part_001\<close>: the call throws
  exactly for a name that is not bound to a constructor; otherwise the first call makes
  the instance and stores it, and a later call returns the stored one.\<close>

lemma getInstance_part_001_throws_iff:
  "(\<exists>e. getInstance_part_001 modules name opts v = Inl e) \<longleftrightarrow> \<not> isFunction (modules name)"
  by (auto simp: getInstance_part_001_def isFunction_def split: option.splits module_value.splits)

lemma getInstance_part_001_first:
  assumes "modules name = Some (Constructor c)" "modulesInstances v name = None"
  shows "getInstance_part_001 modules name opts v =
           Inr (c (viewId v) opts, v\<lparr>modulesInstances := (modulesInstances v)(name \<mapsto> c (viewId v) opts)\<rparr>)"
  using assms by (simp add: getInstance_part_001_def isFunction_def)

lemma getInstance_part_001_cached:
  assumes "modules name = Some (Constructor c)"
    and "getInstance_part_001 modules name opts v = Inr (inst, v')"
  shows "getInstance_part_001 modules name opts' v' = Inr (inst, v')"
  using assms
  by (auto simp: getInstance_part_001_def isFunction_def split: option.splits if_splits)

definition example_modules :: registry where
  "example_modules = (\<lambda>n. None)(''Dom'' \<mapsto> Constructor (Component ''Dom''), ''version'' \<mapsto> NotAFunction)"

definition example_view :: view where
  "example_view = \<lparr>viewId = ''editor'', modulesInstances = (\<lambda>n. None)\<rparr>"

text \<open>
  Claim C9 is right about \<open>src/unnamed/part_001\<close>, and \<open>src/unnamed/part_002\<close> does the
  opposite: there the call for the registered constructor \<open>Dom\<close> throws the
  ``Need real module name'' error, and the call for a name that is not a constructor
  throws as well, so no first call ever returns.
\<close>

theorem getInstance_part_002_throws_for_registered:
  "isFunction (example_modules ''Dom'') \<and>
   getInstance_part_002 example_modules ''Dom'' None example_view = Inl (JoditError ''Need real module name'') \<and>
   getInstance_part_001 example_modules ''Dom'' None example_view =
     Inr (Component ''Dom'' ''editor'' None,
          example_view\<lparr>modulesInstances := (modulesInstances example_view)(''Dom'' \<mapsto> Component ''Dom'' ''editor'' None)\<rparr>) \<and>
   getInstance_part_002 example_modules ''version'' None example_view = Inl TypeError \<and>
   getInstance_part_002 example_modules ''nothing'' None example_view = Inl TypeError"
  by (simp add: getInstance_part_002_def getInstance_part_001_def isFunction_def example_modules_def
      example_view_def)

section \<open>Node classifier and tree walker of \<open>src/core/dom.ts\<close>\<close>

definition isText :: "dom \<Rightarrow> node_id option \<Rightarrow> bool" where
  "isText s node = (case node of None \<Rightarrow> False | Some n \<Rightarrow> kindOf s n = TEXT_NODE)"

definition isElement :: "dom \<Rightarrow> node_id option \<Rightarrow> bool" where
  "isElement s node = (case node of None \<Rightarrow> False | Some n \<Rightarrow> kindOf s n = ELEMENT_NODE)"

definition isTag :: "dom \<Rightarrow> node_id option \<Rightarrow> string \<Rightarrow> bool" where
  "isTag s node tagName =
     (case node of
        None \<Rightarrow> False
      | Some n \<Rightarrow> kindOf s n = ELEMENT_NODE \<and> toLowerCase (nodeName (heap s n)) = toLowerCase tagName)"

text \<open>
  Modelled from the spec: the helper \<open>trim\<close> is not under \<open>src/\<close>; it strips white space at
  both ends of a string.
\<close>

definition isSpaceChar :: "char \<Rightarrow> bool" where
  "isSpaceChar c \<longleftrightarrow> c \<in> set [CHR '' '', CHR 0x09, CHR 0x0A, CHR 0x0B, CHR 0x0C, CHR 0x0D]"

definition trim :: "string \<Rightarrow> string" where
  "trim v = rev (dropWhile isSpaceChar (rev (dropWhile isSpaceChar v)))"

datatype sibling_dir = NextSibling | PreviousSibling

datatype child_dir = FirstChild | LastChild | NoChild

definition siblingOf :: "dom \<Rightarrow> sibling_dir \<Rightarrow> node_id \<Rightarrow> node_id option" where
  "siblingOf s dir n = (case dir of NextSibling \<Rightarrow> nextSibling s n | PreviousSibling \<Rightarrow> previousSibling s n)"

definition childOf :: "dom \<Rightarrow> child_dir \<Rightarrow> node_id \<Rightarrow> node_id option" where
  "childOf s dir n = (case dir of FirstChild \<Rightarrow> firstChild s n | LastChild \<Rightarrow> lastChild s n | NoChild \<Rightarrow> None)"

text \<open>
  \<open>Dom.find\<close>. The condition is a callback that may keep a state of its own (the callers in
  \<open>src/\<close> collect nodes in it); it is given the node or null, and gives back its verdict
  and its new state. One call of the model is one round of the source's do-while loop,
  preceded by the test of the start node when \<open>recurse\<close> is set.
\<close>

partial_function (option) find ::
    "dom \<Rightarrow> (node_id option \<Rightarrow> 'a \<Rightarrow> bool \<times> 'a) \<Rightarrow> node_id \<Rightarrow> bool \<Rightarrow> sibling_dir \<Rightarrow> child_dir
      \<Rightarrow> node_id \<Rightarrow> 'a \<Rightarrow> (node_id option \<times> 'a) option" where
  "find s condition root recurse sibling child node a =
     (if recurse \<and> fst (condition (Some node) a) then Some (Some node, snd (condition (Some node) a))
      else
        let a0 = (if recurse then snd (condition (Some node) a) else a);
            next = siblingOf s sibling node;
            a1 = snd (condition next a0)
        in if fst (condition next a0) then Some (next, a1)
           else
             Option.bind
               (case next of
                  None \<Rightarrow> Some (None, a1)
                | Some n \<Rightarrow>
                    (case childOf s child n of
                       None \<Rightarrow> Some (None, a1)
                     | Some c \<Rightarrow> find s condition n True sibling child c a1))
               (\<lambda>nextOne.
                  if fst nextOne \<noteq> None then Some nextOne
                  else
                    (case (case next of None \<Rightarrow> parentOf s node | Some n \<Rightarrow> Some n) of
                       None \<Rightarrow> Some (None, snd nextOne)
                     | Some start \<Rightarrow>
                         if start = root then Some (None, snd nextOne)
                         else find s condition root False sibling child start (snd nextOne))))"

text \<open>\<open>Dom.next\<close> and \<open>Dom.prev\<close>, with a condition that keeps no state.\<close>

definition stateless :: "(node_id option \<Rightarrow> bool) \<Rightarrow> node_id option \<Rightarrow> unit \<Rightarrow> bool \<times> unit" where
  "stateless condition node u = (condition node, u)"

definition "next" :: "dom \<Rightarrow> node_id \<Rightarrow> (node_id option \<Rightarrow> bool) \<Rightarrow> node_id \<Rightarrow> bool \<Rightarrow> node_id option option" where
  "next s node condition root withChild =
     map_option fst (find s (stateless condition) root False NextSibling
                       (if withChild then FirstChild else NoChild) node ())"

definition prev :: "dom \<Rightarrow> node_id \<Rightarrow> (node_id option \<Rightarrow> bool) \<Rightarrow> node_id \<Rightarrow> bool \<Rightarrow> node_id option option" where
  "prev s node condition root withChild =
     map_option fst (find s (stateless condition) root False PreviousSibling
                       (if withChild then LastChild else NoChild) node ())"

text \<open>JavaScript's \<open>Boolean\<close> on a node or null.\<close>

definition Boolean :: "node_id option \<Rightarrow> bool" where
  "Boolean node = (node \<noteq> None)"

text \<open>
  \<open>Dom.each\<close>. The callback works on the document and on a state of its own; it gives back
  whether the traversal goes on (it returned anything but \<open>false\<close>). \<open>eachFrom\<close> is the
  source's while loop from the node it is given.
\<close>

type_synonym 'a callback = "node_id \<Rightarrow> dom \<times> 'a \<Rightarrow> bool \<times> dom \<times> 'a"

partial_function (option) eachFrom ::
    "'a callback \<Rightarrow> node_id \<Rightarrow> node_id option \<Rightarrow> dom \<times> 'a \<Rightarrow> (bool \<times> dom \<times> 'a) option" where
  "eachFrom callback elm node st =
     (case node of
        None \<Rightarrow> Some (True, st)
      | Some n \<Rightarrow>
          Option.bind (next (fst st) n Boolean elm True) (\<lambda>nx.
            if \<not> fst (callback n st) then Some (False, snd (callback n st))
            else
              Option.bind
                (if parentOf (fst (snd (callback n st))) n \<noteq> None
                 then eachFrom callback n (firstChild (fst (snd (callback n st))) n) (snd (callback n st))
                 else Some (True, snd (callback n st)))
                (\<lambda>inner. if \<not> fst inner then Some (False, snd inner)
                          else eachFrom callback elm nx (snd inner))))"

definition each :: "'a callback \<Rightarrow> node_id \<Rightarrow> dom \<times> 'a \<Rightarrow> (bool \<times> dom \<times> 'a) option" where
  "each callback elm st = eachFrom callback elm (firstChild (fst st) elm) st"

text \<open>\<open>Dom.isEmpty\<close>; the regular expression is the set of lower-case tag names it accepts.\<close>

definition defaultNoEmptyElement :: "string \<Rightarrow> bool" where
  "defaultNoEmptyElement name \<longleftrightarrow> name \<in> set [''img'', ''svg'', ''canvas'', ''input'', ''textarea'', ''form'']"

definition notEmptyCallback :: "(string \<Rightarrow> bool) \<Rightarrow> unit callback" where
  "notEmptyCallback condNoEmptyElement elm st =
     (if (isText (fst st) (Some elm) \<and> nodeValue (heap (fst st) elm) \<noteq> None \<and>
            length (trim (the (nodeValue (heap (fst st) elm)))) \<noteq> 0) \<or>
         (isElement (fst st) (Some elm) \<and> condNoEmptyElement (toLowerCase (nodeName (heap (fst st) elm))))
      then (False, st) else (True, st))"

definition isEmpty :: "dom \<Rightarrow> node_id option \<Rightarrow> (string \<Rightarrow> bool) \<Rightarrow> bool option" where
  "isEmpty s node condNoEmptyElement =
     (case node of
        None \<Rightarrow> Some True
      | Some n \<Rightarrow>
          if isText s (Some n) then
            Some (case nodeValue (heap s n) of None \<Rightarrow> True | Some v \<Rightarrow> length (trim v) = 0)
          else if condNoEmptyElement (toLowerCase (nodeName (heap s n))) then Some False
          else map_option fst (each (notEmptyCallback condNoEmptyElement) n (s, ())))"

section \<open>The tree behind a store\<close>

text \<open>
  A forest is written first-child/next-sibling: \<open>Node n k r\<close> is the node \<open>n\<close>, the forest
  \<open>k\<close> of its children and the forest \<open>r\<close> of its later siblings. \<open>shaped s p f\<close> says that
  the store holds exactly this forest below the parent \<open>p\<close>.
\<close>

datatype forest = Empty | Node node_id forest forest

fun roots :: "forest \<Rightarrow> node_id list" where
  "roots Empty = []"
| "roots (Node n k r) = n # roots r"

fun nodesOf :: "forest \<Rightarrow> node_id list" where
  "nodesOf Empty = []"
| "nodesOf (Node n k r) = n # nodesOf k @ nodesOf r"

fun shaped :: "dom \<Rightarrow> node_id \<Rightarrow> forest \<Rightarrow> bool" where
  "shaped s p Empty = True"
| "shaped s p (Node n k r) \<longleftrightarrow>
     parentOf s n = Some p \<and> childrenOf s n = roots k \<and> shaped s n k \<and> shaped s p r"

fun firstOf :: "forest \<Rightarrow> node_id option" where
  "firstOf Empty = None"
| "firstOf (Node n k r) = Some n"

text \<open>What \<open>Dom.each\<close> computes, told on the forest that the store held at the call.\<close>

fun walk :: "'a callback \<Rightarrow> forest \<Rightarrow> dom \<times> 'a \<Rightarrow> bool \<times> dom \<times> 'a" where
  "walk callback Empty st = (True, st)"
| "walk callback (Node n k r) st =
     (if \<not> fst (callback n st) then (False, snd (callback n st))
      else if parentOf (fst (snd (callback n st))) n \<noteq> None then
        (if \<not> fst (walk callback k (snd (callback n st)))
         then (False, snd (walk callback k (snd (callback n st))))
         else walk callback r (snd (walk callback k (snd (callback n st)))))
      else walk callback r (snd (callback n st)))"

text \<open>The nodes the callback is called on, in order, each with the callback's verdict.\<close>

fun trace :: "'a callback \<Rightarrow> forest \<Rightarrow> dom \<times> 'a \<Rightarrow> (node_id \<times> bool) list" where
  "trace callback Empty st = []"
| "trace callback (Node n k r) st =
     (if \<not> fst (callback n st) then [(n, False)]
      else if parentOf (fst (snd (callback n st))) n \<noteq> None then
        (if \<not> fst (walk callback k (snd (callback n st)))
         then (n, True) # trace callback k (snd (callback n st))
         else (n, True) # trace callback k (snd (callback n st)) @
              trace callback r (snd (walk callback k (snd (callback n st)))))
      else (n, True) # trace callback r (snd (callback n st)))"

text \<open>Two stores hold the same tree when every parent link and every child list agree; what
  the nodes hold besides (value, style, attributes) may differ.\<close>

definition sameTree :: "dom \<Rightarrow> dom \<Rightarrow> bool" where
  "sameTree d' d \<longleftrightarrow> parentOf d' = parentOf d \<and> childrenOf d' = childrenOf d"

text \<open>A callback each call of which leaves the tree as it is, or leaves it as the removal of
  the node it is called on does. What it does to the content of the nodes is free.\<close>

definition gentle :: "'a callback \<Rightarrow> bool" where
  "gentle callback \<longleftrightarrow>
     (\<forall>n d a. sameTree (fst (snd (callback n (d, a)))) d \<or>
              sameTree (fst (snd (callback n (d, a)))) (removeNode n d))"

lemma following_split:
  assumes "n \<notin> set pre"
  shows "following n (pre @ n # post) = (case post of [] \<Rightarrow> None | m # _ \<Rightarrow> Some m)"
  using assms by (induction pre) auto

lemma firstChild_roots: "childrenOf s n = roots k \<Longrightarrow> firstChild s n = firstOf k"
  by (cases k) (simp_all add: firstChild_def)

lemma next_sibling_in_list:
  assumes "parentOf s n = Some p" "childrenOf s p = pre @ n # roots r" "n \<notin> set pre"
  shows "next s n Boolean p True = Some (firstOf r)"
proof -
  have ns: "nextSibling s n = firstOf r"
    using assms by (cases r) (simp_all add: nextSibling_def following_split)
  show ?thesis
    unfolding next_def
    by (subst find.simps) (cases r; simp add: siblingOf_def ns stateless_def Boolean_def assms(1))
qed

lemma shaped_frame:
  assumes "shaped s p f"
    and "\<And>m. m \<in> set (nodesOf f) \<Longrightarrow> parentOf s' m = parentOf s m \<and> childrenOf s' m = childrenOf s m"
  shows "shaped s' p f"
  using assms by (induction f arbitrary: p) auto

lemma eachFrom_walk:
  assumes g: "gentle callback"
  shows "shaped s p f \<Longrightarrow> distinct (p # nodesOf f) \<Longrightarrow> childrenOf s p = pre @ roots f \<Longrightarrow>
         set pre \<inter> set (roots f) = {} \<Longrightarrow>
         eachFrom callback p (firstOf f) (s, a) = Some (walk callback f (s, a)) \<and>
         (\<forall>m. m \<notin> set (p # nodesOf f) \<longrightarrow>
              parentOf (fst (snd (walk callback f (s, a)))) m = parentOf s m \<and>
              childrenOf (fst (snd (walk callback f (s, a)))) m = childrenOf s m)"
proof (induction f arbitrary: s p pre a)
  case Empty
  then show ?case by (subst eachFrom.simps) simp
next
  case (Node n k r)
  have pn: "parentOf s n = Some p" and cn: "childrenOf s n = roots k"
    and sk: "shaped s n k" and sr: "shaped s p r"
    using Node.prems(1) by simp_all
  have npre: "n \<notin> set pre" using Node.prems(4) by auto
  have nx: "next s n Boolean p True = Some (firstOf r)"
    using pn Node.prems(3) npre by (intro next_sibling_in_list[where pre=pre]) simp_all
  obtain b s1 a1 where c: "callback n (s, a) = (b, s1, a1)" by (cases "callback n (s, a)")
  have s1: "sameTree s1 s \<or> sameTree s1 (removeNode n s)"
    using g c unfolding gentle_def by (metis fst_conv snd_conv)
  have out: "\<And>m. m \<noteq> n \<Longrightarrow> m \<noteq> p \<Longrightarrow>
                 parentOf s1 m = parentOf s m \<and> childrenOf s1 m = childrenOf s m"
    using s1 pn by (auto simp: sameTree_def)
  show ?case
  proof (cases b)
    case False
    have "eachFrom callback p (firstOf (Node n k r)) (s, a) = Some (walk callback (Node n k r) (s, a))"
      using False c nx by (subst eachFrom.simps) simp
    moreover have "\<forall>m. m \<notin> set (p # nodesOf (Node n k r)) \<longrightarrow>
              parentOf (fst (snd (walk callback (Node n k r) (s, a)))) m = parentOf s m \<and>
              childrenOf (fst (snd (walk callback (Node n k r) (s, a)))) m = childrenOf s m"
      using False c out by simp
    ultimately show ?thesis by blast
  next
    case True
    note b = True
    show ?thesis
    proof (cases "parentOf s1 n = None")
      case False
      with s1 have same: "parentOf s1 = parentOf s" "childrenOf s1 = childrenOf s"
        by (auto simp: sameTree_def)
      have pn1: "parentOf s1 n = Some p" using pn same by simp
      have cn1: "childrenOf s1 n = roots k" using cn same by simp
      have sk1: "shaped s1 n k" using sk by (rule shaped_frame) (simp add: same)
      have dk: "distinct (n # nodesOf k)" using Node.prems(2) by simp
      from Node.IH(1)[OF sk1 dk, of "[]" a1] cn1
      have ih1: "eachFrom callback n (firstOf k) (s1, a1) = Some (walk callback k (s1, a1))"
        and fr1: "\<forall>m. m \<notin> set (n # nodesOf k) \<longrightarrow>
              parentOf (fst (snd (walk callback k (s1, a1)))) m = parentOf s1 m \<and>
              childrenOf (fst (snd (walk callback k (s1, a1)))) m = childrenOf s1 m"
        by simp_all
      obtain b2 s2 a2 where w: "walk callback k (s1, a1) = (b2, s2, a2)"
        by (cases "walk callback k (s1, a1)")
      have fr1': "\<And>m. m \<notin> set (n # nodesOf k) \<Longrightarrow> parentOf s2 m = parentOf s m \<and> childrenOf s2 m = childrenOf s m"
        using fr1 w same by simp
      have fc: "firstChild s1 n = firstOf k" using cn1 by (rule firstChild_roots)
      show ?thesis
      proof (cases b2)
        case False
        have "eachFrom callback p (firstOf (Node n k r)) (s, a) = Some (walk callback (Node n k r) (s, a))"
          using c b pn1 nx ih1 w False fc by (subst eachFrom.simps) simp
        moreover have "\<forall>m. m \<notin> set (p # nodesOf (Node n k r)) \<longrightarrow>
              parentOf (fst (snd (walk callback (Node n k r) (s, a)))) m = parentOf s m \<and>
              childrenOf (fst (snd (walk callback (Node n k r) (s, a)))) m = childrenOf s m"
          using c b pn1 w False fr1' by simp
        ultimately show ?thesis by blast
      next
        case True
        have sr2: "shaped s2 p r"
          using sr
        proof (rule shaped_frame)
          fix m assume "m \<in> set (nodesOf r)"
          then have "m \<notin> set (n # nodesOf k)" using Node.prems(2) by auto
          then show "parentOf s2 m = parentOf s m \<and> childrenOf s2 m = childrenOf s m" by (rule fr1')
        qed
        have dr: "distinct (p # nodesOf r)" using Node.prems(2) by simp
        have "p \<notin> set (n # nodesOf k)" using Node.prems(2) by auto
        then have cp2: "childrenOf s2 p = (pre @ [n]) @ roots r"
          using fr1' Node.prems(3) by simp
        have rr: "set (roots r) \<subseteq> set (nodesOf r)" for r
          by (induction r) auto
        have dj: "set (pre @ [n]) \<inter> set (roots r) = {}"
          using Node.prems(2,4) rr[of r] by auto
        from Node.IH(2)[OF sr2 dr cp2 dj, of a2]
        have ih2: "eachFrom callback p (firstOf r) (s2, a2) = Some (walk callback r (s2, a2))"
          and fr2: "\<forall>m. m \<notin> set (p # nodesOf r) \<longrightarrow>
              parentOf (fst (snd (walk callback r (s2, a2)))) m = parentOf s2 m \<and>
              childrenOf (fst (snd (walk callback r (s2, a2)))) m = childrenOf s2 m"
          by simp_all
        have "eachFrom callback p (firstOf (Node n k r)) (s, a) = Some (walk callback (Node n k r) (s, a))"
          using c b pn1 nx ih1 w True fc ih2 by (subst eachFrom.simps) simp
        moreover have "\<forall>m. m \<notin> set (p # nodesOf (Node n k r)) \<longrightarrow>
              parentOf (fst (snd (walk callback (Node n k r) (s, a)))) m = parentOf s m \<and>
              childrenOf (fst (snd (walk callback (Node n k r) (s, a)))) m = childrenOf s m"
          using c b pn1 w True fr1' fr2 by simp
        ultimately show ?thesis by blast
      qed
    next
      case True
      note pn1 = True
      with s1 pn have rem: "parentOf s1 = parentOf (removeNode n s)"
        "childrenOf s1 = childrenOf (removeNode n s)"
        by (auto simp: sameTree_def)
      have rr: "set (roots r) \<subseteq> set (nodesOf r)" for r
        by (induction r) auto
      have nr: "n \<notin> set (roots r)" using Node.prems(2) rr[of r] by auto
      have sr1: "shaped s1 p r"
        using sr
      proof (rule shaped_frame)
        fix m assume m: "m \<in> set (nodesOf r)"
        then have "m \<noteq> n" "m \<noteq> p" using Node.prems(2) by auto
        then show "parentOf s1 m = parentOf s m \<and> childrenOf s1 m = childrenOf s m"
          by (rule out)
      qed
      have dr: "distinct (p # nodesOf r)" using Node.prems(2) by simp
      have cp1: "childrenOf s1 p = pre @ roots r"
        using pn Node.prems(3) npre nr by (simp add: rem)
      have dj: "set pre \<inter> set (roots r) = {}" using Node.prems(4) by auto
      from Node.IH(2)[OF sr1 dr cp1 dj, of a1]
      have ih2: "eachFrom callback p (firstOf r) (s1, a1) = Some (walk callback r (s1, a1))"
        and fr2: "\<forall>m. m \<notin> set (p # nodesOf r) \<longrightarrow>
              parentOf (fst (snd (walk callback r (s1, a1)))) m = parentOf s1 m \<and>
              childrenOf (fst (snd (walk callback r (s1, a1)))) m = childrenOf s1 m"
        by simp_all
      have "eachFrom callback p (firstOf (Node n k r)) (s, a) = Some (walk callback (Node n k r) (s, a))"
        using c b pn1 nx ih2 by (subst eachFrom.simps) simp
      moreover have "\<forall>m. m \<notin> set (p # nodesOf (Node n k r)) \<longrightarrow>
              parentOf (fst (snd (walk callback (Node n k r) (s, a)))) m = parentOf s m \<and>
              childrenOf (fst (snd (walk callback (Node n k r) (s, a)))) m = childrenOf s m"
        using c b pn1 fr2 out by simp
      ultimately show ?thesis by blast
    qed
  qed
qed

lemma roots_subset_nodesOf: "set (roots f) \<subseteq> set (nodesOf f)"
  by (induction f) auto

lemma shaped_roots_parent:
  "shaped s p f \<Longrightarrow> m \<in> set (roots f) \<Longrightarrow> parentOf s m = Some p"
  by (induction f) auto

lemma forest_for_list:
  assumes "\<And>c. c \<in> set ns \<Longrightarrow> parentOf s c = Some p \<and> (\<exists>k. roots k = childrenOf s c \<and> shaped s c k)"
  shows "\<exists>f. roots f = ns \<and> shaped s p f"
  using assms
proof (induction ns)
  case Nil
  have "roots Empty = [] \<and> shaped s p Empty" by simp
  then show ?case by blast
next
  case (Cons n ns)
  from Cons.prems[of n] obtain k where k: "parentOf s n = Some p" "roots k = childrenOf s n" "shaped s n k"
    by auto
  from Cons.IH Cons.prems obtain r where r: "roots r = ns" "shaped s p r" by auto
  have "roots (Node n k r) = n # ns \<and> shaped s p (Node n k r)" using k r by simp
  then show ?case by blast
qed

lemma forest_exists:
  assumes w: "wf_dom s"
  shows "\<exists>f. roots f = childrenOf s p \<and> shaped s p f"
  using wf_domD(5)[OF w]
proof (induction p rule: wf_induct_rule)
  case (less p)
  show ?case
  proof (rule forest_for_list)
    fix c assume "c \<in> set (childrenOf s p)"
    then have pc: "parentOf s c = Some p" using wf_domD(2)[OF w] by simp
    then have "(c, p) \<in> (parentRel s)\<inverse>" by simp
    from less[OF this] pc
    show "parentOf s c = Some p \<and> (\<exists>k. roots k = childrenOf s c \<and> shaped s c k)" by simp
  qed
qed

lemma shaped_unique:
  "shaped s p f \<Longrightarrow> shaped s p f' \<Longrightarrow> roots f = roots f' \<Longrightarrow> f = f'"
proof (induction f arbitrary: p f')
  case Empty
  then show ?case by (cases f') simp_all
next
  case (Node n k r)
  then obtain k' r' where f': "f' = Node n k' r'" by (cases f') auto
  have "k = k'" using Node.IH(1)[of n k'] Node.prems f' by simp
  moreover have "r = r'" using Node.IH(2)[of p r'] Node.prems f' by simp
  ultimately show ?case using f' by simp
qed

lemma nodesOf_below_root:
  "shaped s p f \<Longrightarrow> x \<in> set (nodesOf f) \<Longrightarrow> \<exists>m\<in>set (roots f). (m, x) \<in> (parentRel s)\<^sup>*"
proof (induction f arbitrary: p)
  case Empty
  then show ?case by simp
next
  case (Node n k r)
  from Node.prems(2) consider "x = n" | "x \<in> set (nodesOf k)" | "x \<in> set (nodesOf r)" by auto
  then show ?case
  proof cases
    case 1
    then show ?thesis by auto
  next
    case 2
    from Node.IH(1)[of n] Node.prems(1) 2 obtain m where m: "m \<in> set (roots k)" "(m, x) \<in> (parentRel s)\<^sup>*"
      by auto
    have "parentOf s m = Some n" using shaped_roots_parent[of s n k m] Node.prems(1) m(1) by simp
    then have "(n, m) \<in> parentRel s" by simp
    from converse_rtrancl_into_rtrancl[OF this m(2)] have "(n, x) \<in> (parentRel s)\<^sup>*" .
    then show ?thesis by auto
  next
    case 3
    from Node.IH(2)[of p] Node.prems(1) 3 show ?thesis by auto
  qed
qed

lemma nodesOf_below_parent:
  assumes "shaped s p f" "x \<in> set (nodesOf f)"
  shows "(p, x) \<in> (parentRel s)\<^sup>+"
proof -
  from nodesOf_below_root[OF assms] obtain m where m: "m \<in> set (roots f)" "(m, x) \<in> (parentRel s)\<^sup>*"
    by auto
  have "(p, m) \<in> parentRel s" using shaped_roots_parent[OF assms(1) m(1)] by simp
  from rtrancl_into_trancl2[OF this m(2)] show ?thesis .
qed

lemma not_own_descendant:
  assumes w: "wf_dom s"
  shows "(x, x) \<notin> (parentRel s)\<^sup>+"
proof -
  have "wf ((parentRel s)\<^sup>+)" using wf_domD(4)[OF w] by (rule wf_trancl)
  then show ?thesis by (rule wf_not_refl)
qed

lemma ancestors_linear:
  assumes "(a, x) \<in> (parentRel s)\<^sup>*" "(b, x) \<in> (parentRel s)\<^sup>*"
  shows "(a, b) \<in> (parentRel s)\<^sup>* \<or> (b, a) \<in> (parentRel s)\<^sup>*"
proof -
  have sv: "single_valued ((parentRel s)\<inverse>)"
    by (auto simp: single_valued_def)
  have "(x, a) \<in> ((parentRel s)\<inverse>)\<^sup>*" "(x, b) \<in> ((parentRel s)\<inverse>)\<^sup>*"
    using assms by (simp_all add: rtrancl_converse)
  from single_valued_confluent[OF sv this]
  show ?thesis by (auto simp: rtrancl_converse)
qed

lemma siblings_incomparable:
  assumes w: "wf_dom s" and "parentOf s n = Some p" "parentOf s m = Some p" "n \<noteq> m"
  shows "(n, m) \<notin> (parentRel s)\<^sup>*"
proof
  assume "(n, m) \<in> (parentRel s)\<^sup>*"
  then have "(n, p) \<in> (parentRel s)\<^sup>*"
    using assms(3,4) by (cases rule: rtranclE) auto
  with child_not_ancestor[OF w assms(2)] show False by contradiction
qed

lemma shaped_distinct_nodes:
  assumes w: "wf_dom s"
  shows "shaped s p f \<Longrightarrow> distinct (roots f) \<Longrightarrow> distinct (nodesOf f)"
proof (induction f arbitrary: p)
  case Empty
  then show ?case by simp
next
  case (Node n k r)
  have pn: "parentOf s n = Some p" and cn: "childrenOf s n = roots k"
    and sk: "shaped s n k" and sr: "shaped s p r"
    using Node.prems(1) by simp_all
  have dk: "distinct (nodesOf k)"
    using Node.IH(1)[OF sk] wf_domD(3)[OF w, of n] cn by simp
  have dr: "distinct (nodesOf r)"
    using Node.IH(2)[OF sr] Node.prems(2) by simp
  have nk: "n \<notin> set (nodesOf k)"
    using nodesOf_below_parent[OF sk, of n] not_own_descendant[OF w, of n] by auto
  have below_r: "n \<noteq> m \<and> parentOf s m = Some p \<and> (m, x) \<in> (parentRel s)\<^sup>*"
    if "m \<in> set (roots r)" "(m, x) \<in> (parentRel s)\<^sup>*" for m x
    using that Node.prems(2) shaped_roots_parent[OF sr, of m] by auto
  have nr: "n \<notin> set (nodesOf r)"
  proof
    assume "n \<in> set (nodesOf r)"
    from nodesOf_below_root[OF sr this] obtain m where m: "m \<in> set (roots r)" "(m, n) \<in> (parentRel s)\<^sup>*"
      by auto
    from below_r[OF m] have "n \<noteq> m" "parentOf s m = Some p" by simp_all
    from siblings_incomparable[OF w this(2) pn] this(1) m(2) show False by auto
  qed
  have kr: "set (nodesOf k) \<inter> set (nodesOf r) = {}"
  proof (rule ccontr)
    assume "set (nodesOf k) \<inter> set (nodesOf r) \<noteq> {}"
    then obtain x where x: "x \<in> set (nodesOf k)" "x \<in> set (nodesOf r)" by auto
    have nx: "(n, x) \<in> (parentRel s)\<^sup>*"
      using nodesOf_below_parent[OF sk x(1)] by (rule trancl_into_rtrancl)
    from nodesOf_below_root[OF sr x(2)] obtain m where m: "m \<in> set (roots r)" "(m, x) \<in> (parentRel s)\<^sup>*"
      by auto
    from below_r[OF m] have nm: "n \<noteq> m" and pm: "parentOf s m = Some p" by simp_all
    from ancestors_linear[OF nx m(2)]
    show False
      using siblings_incomparable[OF w pn pm nm] siblings_incomparable[OF w pm pn] nm by auto
  qed
  show ?case using dk dr nk nr kr by simp
qed

lemma shaped_distinct:
  assumes w: "wf_dom s" and sh: "shaped s p f" and d: "distinct (roots f)"
  shows "distinct (p # nodesOf f)"
proof -
  have "p \<notin> set (nodesOf f)"
    using nodesOf_below_parent[OF sh, of p] not_own_descendant[OF w, of p] by auto
  then show ?thesis using shaped_distinct_nodes[OF w sh d] by simp
qed

lemma walk_trace_verdicts:
  "fst (walk callback f st) \<longleftrightarrow> (\<forall>v\<in>set (trace callback f st). snd v)"
proof (induction f arbitrary: st)
  case Empty
  show ?case by simp
next
  case (Node n k r)
  show ?case
    using Node.IH(1)[of "snd (callback n st)"]
      Node.IH(2)[of "snd (walk callback k (snd (callback n st)))"]
      Node.IH(2)[of "snd (callback n st)"]
    by (auto split: if_splits)
qed

lemma trace_stops_at_false:
  "Suc i < length (trace callback f st) \<Longrightarrow> snd (trace callback f st ! i)"
proof (induction f arbitrary: st i)
  case Empty
  then show ?case by simp
next
  case (Node n k r)
  let ?c = "callback n st"
  let ?tk = "trace callback k (snd ?c)"
  let ?tr = "trace callback r (snd (walk callback k (snd ?c)))"
  show ?case
  proof (cases "fst ?c")
    case False
    then show ?thesis using Node.prems by simp
  next
    case c: True
    show ?thesis
    proof (cases i)
      case 0
      then show ?thesis using c by simp
    next
      case (Suc j)
      show ?thesis
      proof (cases "parentOf (fst (snd ?c)) n \<noteq> None")
        case False
        have "Suc j < length (trace callback r (snd ?c))"
          using Node.prems c False Suc by simp
        from Node.IH(2)[OF this] show ?thesis using c False Suc by simp
      next
        case p: True
        show ?thesis
        proof (cases "fst (walk callback k (snd ?c))")
          case False
          have "Suc j < length ?tk" using Node.prems c p False Suc by simp
          from Node.IH(1)[OF this] show ?thesis using c p False Suc by simp
        next
          case wk: True
          have all_k: "\<forall>v\<in>set ?tk. snd v"
            using wk walk_trace_verdicts[of callback k "snd ?c"] by simp
          show ?thesis
          proof (cases "j < length ?tk")
            case True
            then have "snd (?tk ! j)" using all_k by simp
            then show ?thesis using c p wk Suc True by (simp add: nth_append)
          next
            case False
            have "Suc j < length ?tk + length ?tr" using Node.prems Suc c p wk by simp
            with False have "Suc (j - length ?tk) < length ?tr" by arith
            from Node.IH(2)[OF this] have "snd (?tr ! (j - length ?tk))" .
            then show ?thesis using c p wk Suc False by (simp add: nth_append)
          qed
        qed
      qed
    qed
  qed
qed

lemma walk_visits_roots:
  "fst (walk callback f st) \<Longrightarrow> set (roots f) \<subseteq> fst ` set (trace callback f st)"
proof (induction f arbitrary: st)
  case Empty
  then show ?case by simp
next
  case (Node n k r)
  let ?c = "callback n st"
  have c: "fst ?c" using Node.prems by (simp split: if_splits)
  show ?case
  proof (cases "parentOf (fst (snd ?c)) n \<noteq> None")
    case False
    then have "fst (walk callback r (snd ?c))" using Node.prems c by simp
    from Node.IH(2)[OF this] show ?thesis using c False by auto
  next
    case p: True
    then have wk: "fst (walk callback k (snd ?c))" using Node.prems c by (simp split: if_splits)
    then have "fst (walk callback r (snd (walk callback k (snd ?c))))" using Node.prems c p by simp
    from Node.IH(2)[OF this] show ?thesis using c p wk by auto
  qed
qed

text \<open>The callback with a log added to its state: every call is recorded, with its verdict.\<close>

definition logged :: "'a callback \<Rightarrow> ('a \<times> (node_id \<times> bool) list) callback" where
  "logged callback n st =
     (let r = callback n (fst st, fst (snd st))
      in (fst r, fst (snd r), snd (snd r), snd (snd st) @ [(n, fst r)]))"

lemma gentle_logged: "gentle callback \<Longrightarrow> gentle (logged callback)"
  by (simp add: gentle_def logged_def Let_def)

text \<open>
  The nodes of a forest that a traversal comes to when it runs to its end, read off the
  store it leaves: every node in document order, but nothing below a node that is out of
  the tree.
\<close>

fun reached :: "dom \<Rightarrow> forest \<Rightarrow> node_id list" where
  "reached s Empty = []"
| "reached s (Node n k r) = n # (if parentOf s n \<noteq> None then reached s k else []) @ reached s r"

lemma reached_frame:
  "(\<And>m. m \<in> set (nodesOf f) \<Longrightarrow> parentOf s' m = parentOf s m) \<Longrightarrow> reached s' f = reached s f"
  by (induction f) auto

lemma roots_reached: "set (roots f) \<subseteq> set (reached s f)"
  by (induction f) auto

lemma callback_parent_frame:
  assumes g: "gentle callback" and c: "callback n (s, a) = (b, s1, a1)" and m: "m \<noteq> n"
  shows "parentOf s1 m = parentOf s m"
proof -
  have "sameTree s1 s \<or> sameTree s1 (removeNode n s)"
    using g c unfolding gentle_def by (metis fst_conv snd_conv)
  then show ?thesis using m by (auto simp: sameTree_def)
qed

lemma walk_parent_frame:
  assumes g: "gentle callback"
  shows "m \<notin> set (nodesOf f) \<Longrightarrow> parentOf (fst (snd (walk callback f (s, a)))) m = parentOf s m"
proof (induction f arbitrary: s a)
  case Empty
  show ?case by simp
next
  case (Node n k r)
  obtain b s1 a1 where c: "callback n (s, a) = (b, s1, a1)" by (cases "callback n (s, a)")
  obtain b2 s2 a2 where w: "walk callback k (s1, a1) = (b2, s2, a2)"
    by (cases "walk callback k (s1, a1)")
  have m: "m \<noteq> n" "m \<notin> set (nodesOf k)" "m \<notin> set (nodesOf r)" using Node.prems by simp_all
  have p1: "parentOf s1 m = parentOf s m" using g c m(1) by (rule callback_parent_frame)
  have p2: "parentOf s2 m = parentOf s1 m" using Node.IH(1)[OF m(2), of s1 a1] w by simp
  have p3: "parentOf (fst (snd (walk callback r (s2, a2)))) m = parentOf s2 m"
    using m(3) by (rule Node.IH(2))
  have p4: "parentOf (fst (snd (walk callback r (s1, a1)))) m = parentOf s1 m"
    using m(3) by (rule Node.IH(2))
  show ?case using p1 p2 p3 p4 by (simp add: c w)
qed

lemma trace_reached:
  assumes g: "gentle callback"
  shows "distinct (nodesOf f) \<Longrightarrow>
         \<exists>rest. reached (fst (snd (walk callback f (s, a)))) f = map fst (trace callback f (s, a)) @ rest \<and>
                (fst (walk callback f (s, a)) \<longrightarrow> rest = [])"
proof (induction f arbitrary: s a)
  case Empty
  show ?case by simp
next
  case (Node n k r)
  obtain b s1 a1 where c: "callback n (s, a) = (b, s1, a1)" by (cases "callback n (s, a)")
  obtain b2 s2 a2 where w: "walk callback k (s1, a1) = (b2, s2, a2)"
    by (cases "walk callback k (s1, a1)")
  have dk: "distinct (nodesOf k)" and dr: "distinct (nodesOf r)"
    and nk: "n \<notin> set (nodesOf k)" and nr: "n \<notin> set (nodesOf r)"
    and kr: "set (nodesOf k) \<inter> set (nodesOf r) = {}"
    using Node.prems by auto
  have n2: "parentOf s2 n = parentOf s1 n"
    using walk_parent_frame[OF g nk, of s1 a1] w by simp
  show ?case
  proof (cases b)
    case False
    then show ?thesis by (simp add: c)
  next
    case True
    note b = True
    show ?thesis
    proof (cases "parentOf s1 n = None")
      case True
      note out = True
      let ?S = "fst (snd (walk callback r (s1, a1)))"
      have pS: "parentOf ?S n = None"
        using walk_parent_frame[OF g nr, of s1 a1] out by simp
      from Node.IH(2)[OF dr, of s1 a1] obtain rest where
        "reached ?S r = map fst (trace callback r (s1, a1)) @ rest"
        "fst (walk callback r (s1, a1)) \<longrightarrow> rest = []"
        by blast
      then show ?thesis using b out pS by (simp add: c)
    next
      case False
      note kept = False
      from Node.IH(1)[OF dk, of s1 a1] w obtain rest1 where
        r1: "reached s2 k = map fst (trace callback k (s1, a1)) @ rest1" "b2 \<longrightarrow> rest1 = []"
        by auto
      show ?thesis
      proof (cases b2)
        case False
        then show ?thesis using b kept n2 r1 by (simp add: c w)
      next
        case True
        let ?S = "fst (snd (walk callback r (s2, a2)))"
        have pS: "parentOf ?S n = parentOf s1 n"
          using walk_parent_frame[OF g nr, of s2 a2] n2 by simp
        have "reached ?S k = reached s2 k"
        proof (rule reached_frame)
          fix m assume "m \<in> set (nodesOf k)"
          then have "m \<notin> set (nodesOf r)" using kr by auto
          then show "parentOf ?S m = parentOf s2 m" by (rule walk_parent_frame[OF g])
        qed
        then have rk: "reached ?S k = map fst (trace callback k (s1, a1))" using r1 True by simp
        from Node.IH(2)[OF dr, of s2 a2] obtain rest where
          "reached ?S r = map fst (trace callback r (s2, a2)) @ rest"
          "fst (walk callback r (s2, a2)) \<longrightarrow> rest = []"
          by blast
        then show ?thesis using b kept True pS rk by (simp add: c w)
      qed
    qed
  qed
qed

lemma walk_logged:
  "walk (logged callback) f (s, a, l) =
     (fst (walk callback f (s, a)), fst (snd (walk callback f (s, a))),
      snd (snd (walk callback f (s, a))), l @ trace callback f (s, a))"
proof (induction f arbitrary: s a l)
  case Empty
  show ?case by simp
next
  case (Node n k r)
  obtain b s1 a1 where c: "callback n (s, a) = (b, s1, a1)" by (cases "callback n (s, a)")
  have lc: "logged callback n (s, a, l) = (b, s1, a1, l @ [(n, b)])"
    by (simp add: logged_def c)
  obtain b2 s2 a2 where w: "walk callback k (s1, a1) = (b2, s2, a2)"
    by (cases "walk callback k (s1, a1)")
  show ?case
  proof (cases b)
    case False
    then show ?thesis by (simp add: lc c)
  next
    case True
    note b = True
    have ihk: "walk (logged callback) k (s1, a1, l @ [(n, True)]) =
                 (b2, s2, a2, l @ [(n, True)] @ trace callback k (s1, a1))"
      using Node.IH(1)[of s1 a1 "l @ [(n, True)]"] by (simp add: w)
    show ?thesis
    proof (cases "parentOf s1 n \<noteq> None")
      case False
      then show ?thesis
        using Node.IH(2)[of s1 a1 "l @ [(n, True)]"] b by (simp add: lc c)
    next
      case p: True
      show ?thesis
      proof (cases b2)
        case False
        then show ?thesis using b p ihk by (simp add: lc c w)
      next
        case True
        then show ?thesis
          using b p ihk Node.IH(2)[of s2 a2 "l @ [(n, True)] @ trace callback k (s1, a1)"]
          by (simp add: lc c w)
      qed
    qed
  qed
qed

lemma each_via_forest:
  assumes w: "wf_dom s" and g: "gentle callback"
    and sh: "shaped s elm f" and r: "roots f = childrenOf s elm"
  shows "each callback elm (s, a) = Some (walk callback f (s, a))"
proof -
  have d: "distinct (elm # nodesOf f)"
    using shaped_distinct[OF w sh] wf_domD(3)[OF w, of elm] r by simp
  have fc: "firstChild s elm = firstOf f" using r[symmetric] by (rule firstChild_roots)
  from eachFrom_walk[OF g sh d, of "[]" a] r fc
  show ?thesis by (simp add: each_def)
qed

text \<open>Three spans in a div, and a callback that removes the node it is given together with
  the sibling after it.\<close>

definition each_example :: dom where
  "each_example =
     mkDom [elementNode ''DIV'' None [1, 2, 3], elementNode ''SPAN'' (Some 0) [],
            elementNode ''SPAN'' (Some 0) [], elementNode ''SPAN'' (Some 0) []]"

definition removingWithNext :: "unit callback" where
  "removingWithNext n st =
     (True,
      removeNode n (case nextSibling (fst st) n of None \<Rightarrow> fst st | Some m \<Rightarrow> removeNode m (fst st)),
      ())"

lemma next_detached: "parentOf s n = None \<Longrightarrow> next s n Boolean p True = Some None"
  unfolding next_def
  by (subst find.simps) (simp add: siblingOf_def nextSibling_def stateless_def Boolean_def)

lemma eachFrom_two_detached:
  assumes "next s n Boolean p True = Some (Some m)"
    and "callback n (s, a) = (True, s1, a1)" and "parentOf s1 n = None" and "parentOf s1 m = None"
    and "callback m (s1, a1) = (True, s2, a2)" and "parentOf s2 m = None"
  shows "eachFrom callback p (Some n) (s, a) = Some (True, s2, a2)"
proof -
  have e3: "eachFrom callback p None (s2, a2) = Some (True, s2, a2)"
    by (subst eachFrom.simps) simp
  have e2: "eachFrom callback p (Some m) (s1, a1) = Some (True, s2, a2)"
    using assms(4-6) e3 by (subst eachFrom.simps) (simp add: next_detached)
  show ?thesis using assms(1-3) e2 by (subst eachFrom.simps) simp
qed

text \<open>
  Claim C5 as stated fails for a callback that removes more than the node it is called on.
  The callback here removes that node and the sibling after it. Called on the div with the
  three spans, \<open>Dom.each\<close> returns true, no call of the callback having answered false; the
  callback was called on the first span and on the second, which was out of the tree by
  then, and whose successor is therefore null; the third span, a child of the div before
  and after, was never visited.
\<close>

theorem each_skips_sibling_counterexample:
  "wf_dom each_example \<and> childrenOf each_example 0 = [1, 2, 3] \<and>
   (\<exists>s'. each (logged removingWithNext) 0 (each_example, (), []) =
            Some (True, s', (), [(1, True), (2, True)]) \<and>
         each removingWithNext 0 (each_example, ()) = Some (True, s', ()) \<and>
         childrenOf s' 0 = [3] \<and> parentOf s' 3 = Some 0)"
proof -
  have ok: "dom_ok [elementNode ''DIV'' None [1, 2, 3], elementNode ''SPAN'' (Some 0) [],
            elementNode ''SPAN'' (Some 0) [], elementNode ''SPAN'' (Some 0) []]"
    by (simp add: dom_ok_def node_ok_def elementNode_def All_less_Suc)
  have w: "wf_dom each_example" unfolding each_example_def using ok by (rule wf_dom_mkDom)
  have c0: "childrenOf each_example 0 = [1, 2, 3]"
    by (simp add: each_example_def childrenOf_mkDom elementNode_def)
  have p: "parentOf each_example 1 = Some 0" "parentOf each_example 2 = Some 0"
    "parentOf each_example 3 = Some 0"
    by (simp_all add: each_example_def parentOf_mkDom elementNode_def)
  define d1 where "d1 = removeNode 1 (removeNode 2 each_example)"
  define s' where "s' = removeNode 2 d1"
  have ns1: "nextSibling each_example 1 = Some 2" using p c0 by (simp add: nextSibling_def)
  have pd: "parentOf d1 1 = None" "parentOf d1 2 = None" "parentOf s' 2 = None"
    by (simp_all add: d1_def s'_def)
  have ns2: "nextSibling d1 2 = None" using pd by (simp add: nextSibling_def)
  have cb1: "removingWithNext 1 (each_example, ()) = (True, d1, ())"
    using ns1 by (simp add: removingWithNext_def d1_def)
  have cb2: "removingWithNext 2 (d1, ()) = (True, s', ())"
    using ns2 by (simp add: removingWithNext_def s'_def)
  have lb1: "logged removingWithNext 1 (each_example, (), []) = (True, d1, (), [(1, True)])"
    using cb1 by (simp add: logged_def)
  have lb2: "logged removingWithNext 2 (d1, (), [(1, True)]) = (True, s', (), [(1, True), (2, True)])"
    using cb2 by (simp add: logged_def)
  have "childrenOf each_example 0 = [] @ 1 # roots (Node 2 Empty (Node 3 Empty Empty))"
    using c0 by simp
  with p(1) have nx: "next each_example 1 Boolean 0 True = Some (firstOf (Node 2 Empty (Node 3 Empty Empty)))"
    by (rule next_sibling_in_list) simp
  then have nx': "next each_example 1 Boolean 0 True = Some (Some 2)" by simp
  have fc: "firstChild each_example 0 = Some 1" using c0 by (simp add: firstChild_def)
  have e1: "each (logged removingWithNext) 0 (each_example, (), []) =
              Some (True, s', (), [(1, True), (2, True)])"
    unfolding each_def using fc eachFrom_two_detached[OF nx' lb1 pd(1,2) lb2 pd(3)] by simp
  have e2: "each removingWithNext 0 (each_example, ()) = Some (True, s', ())"
    unfolding each_def using fc eachFrom_two_detached[OF nx' cb1 pd(1,2) cb2 pd(3)] by simp
  have f: "childrenOf s' 0 = [3]" "parentOf s' 3 = Some 0"
    using p c0 by (simp_all add: s'_def d1_def)
  show ?thesis using w c0 e1 e2 f by blast
qed

text \<open>
  Claim C5, amended. On a well-formed document, with a callback each call of which leaves
  the tree as it is or as the removal of the node it is called on leaves it (the content of
  the nodes it may edit at will), \<open>Dom.each\<close> returns: nothing in it throws, the
  successor having been read before the callback ran. With \<open>f\<close> the forest that the element
  holds at the call, the nodes the callback was called on are, in this order, an initial
  part of the nodes of \<open>f\<close> in document order, those below a node that the callback took out
  of the tree left out, and they are all of these when no call answered false: the
  traversal goes into the children of every node still in the tree after its call, and on
  to the sibling that followed it before the call. The call returns true exactly when no
  call of the callback answered false; only the last call can have answered false (the
  traversal stops there); and when none did, every child the element had at the start was
  visited.
\<close>

theorem each_safe_under_removal:
  assumes w: "wf_dom s" and g: "gentle callback"
  shows "\<exists>f ok s' a' log.
           roots f = childrenOf s elm \<and> shaped s elm f \<and>
           each (logged callback) elm (s, a, []) = Some (ok, s', a', log) \<and>
           each callback elm (s, a) = Some (ok, s', a') \<and>
           (ok \<longleftrightarrow> (\<forall>v\<in>set log. snd v)) \<and>
           (\<forall>i. Suc i < length log \<longrightarrow> snd (log ! i)) \<and>
           (\<exists>rest. reached s' f = map fst log @ rest \<and> (ok \<longrightarrow> rest = [])) \<and>
           (ok \<longrightarrow> set (childrenOf s elm) \<subseteq> fst ` set log)"
proof -
  from forest_exists[OF w, of elm] obtain f where f: "roots f = childrenOf s elm" "shaped s elm f"
    by blast
  obtain ok s' a' where r: "walk callback f (s, a) = (ok, s', a')"
    by (cases "walk callback f (s, a)")
  let ?log = "trace callback f (s, a)"
  have e1: "each (logged callback) elm (s, a, []) = Some (ok, s', a', ?log)"
    using each_via_forest[OF w gentle_logged[OF g] f(2,1), of "(a, [])"]
    by (simp add: walk_logged r)
  have e2: "each callback elm (s, a) = Some (ok, s', a')"
    using each_via_forest[OF w g f(2,1), of a] by (simp add: r)
  have p1: "ok \<longleftrightarrow> (\<forall>v\<in>set ?log. snd v)"
    using walk_trace_verdicts[of callback f "(s, a)"] by (simp add: r)
  have p2: "\<forall>i. Suc i < length ?log \<longrightarrow> snd (?log ! i)"
    using trace_stops_at_false by blast
  have p3: "ok \<longrightarrow> set (childrenOf s elm) \<subseteq> fst ` set ?log"
    using walk_visits_roots[of callback f "(s, a)"] by (simp add: r f(1))
  have d: "distinct (nodesOf f)"
    using shaped_distinct[OF w f(2)] wf_domD(3)[OF w, of elm] f(1) by simp
  have p4: "\<exists>rest. reached s' f = map fst ?log @ rest \<and> (ok \<longrightarrow> rest = [])"
    using trace_reached[OF g d, of s a] by (simp add: r)
  show ?thesis using f e1 e2 p1 p2 p3 p4 by blast
qed

text \<open>
  A div that holds a span with a text in it, an empty \<open>b\<close> and a \<open>b\<close> with a text in it; and
  a callback that empties every text it is given and removes every \<open>b\<close>. The traversal
  goes into the span and edits its text, removes both \<open>b\<close>, and does not go into the second
  one, whose text stays as it was.
\<close>

definition nested_example :: dom where
  "nested_example =
     mkDom [elementNode ''DIV'' None [1, 2, 3], elementNode ''SPAN'' (Some 0) [4],
            elementNode ''B'' (Some 0) [], elementNode ''B'' (Some 0) [5],
            textNode ''a'' (Some 1), textNode ''b'' (Some 3)]"

definition setNodeValue :: "node_id \<Rightarrow> string \<Rightarrow> dom \<Rightarrow> dom" where
  "setNodeValue n v s = s\<lparr>heap := (heap s)(n := (heap s n)\<lparr>nodeValue := Some v\<rparr>)\<rparr>"

definition tidying :: "unit callback" where
  "tidying n st =
     (True,
      (if kindOf (fst st) n = TEXT_NODE then setNodeValue n [] (fst st)
       else if nodeName (heap (fst st) n) = ''B'' then removeNode n (fst st)
       else fst st),
      ())"

lemma parentOf_setNodeValue [simp]: "parentOf (setNodeValue n v s) = parentOf s"
  by (auto simp: parentOf_def setNodeValue_def)

lemma childrenOf_setNodeValue [simp]: "childrenOf (setNodeValue n v s) = childrenOf s"
  by (auto simp: childrenOf_def setNodeValue_def)

lemma kindOf_setNodeValue [simp]: "kindOf (setNodeValue n v s) = kindOf s"
  by (auto simp: kindOf_def setNodeValue_def)

lemma nodeName_setNodeValue [simp]: "nodeName (heap (setNodeValue n v s) m) = nodeName (heap s m)"
  by (simp add: setNodeValue_def)

lemma nodeName_removeNode [simp]: "nodeName (heap (removeNode n s) m) = nodeName (heap s m)"
  by (simp add: removeNode_def setParent_def setChildren_def split: option.splits)

lemma nodeValue_removeNode [simp]: "nodeValue (heap (removeNode n s) m) = nodeValue (heap s m)"
  by (simp add: removeNode_def setParent_def setChildren_def split: option.splits)

lemma gentle_tidying: "gentle tidying"
  by (simp add: gentle_def sameTree_def tidying_def)

theorem each_safe_under_removal_witness:
  "wf_dom nested_example \<and> gentle tidying \<and>
   (\<exists>s'. each (logged tidying) 0 (nested_example, (), []) =
            Some (True, s', (), [(1, True), (4, True), (2, True), (3, True)]) \<and>
          each tidying 0 (nested_example, ()) = Some (True, s', ()) \<and>
          reached s' (Node 1 (Node 4 Empty Empty) (Node 2 Empty (Node 3 (Node 5 Empty Empty) Empty))) =
            [1, 4, 2, 3] \<and>
          childrenOf s' 0 = [1] \<and> childrenOf s' 3 = [5] \<and>
          nodeValue (heap s' 4) = Some [] \<and> nodeValue (heap s' 5) = Some ''b'')"
proof -
  have ok: "dom_ok [elementNode ''DIV'' None [1, 2, 3], elementNode ''SPAN'' (Some 0) [4],
            elementNode ''B'' (Some 0) [], elementNode ''B'' (Some 0) [5],
            textNode ''a'' (Some 1), textNode ''b'' (Some 3)]"
    by (simp add: dom_ok_def node_ok_def elementNode_def textNode_def All_less_Suc)
  have w: "wf_dom nested_example" unfolding nested_example_def using ok by (rule wf_dom_mkDom)
  note g = gentle_tidying
  let ?f = "Node 1 (Node 4 Empty Empty) (Node 2 Empty (Node 3 (Node 5 Empty Empty) Empty))"
  have sh: "shaped nested_example 0 ?f" "roots ?f = childrenOf nested_example 0"
    by (simp_all add: nested_example_def parentOf_mkDom childrenOf_mkDom elementNode_def textNode_def)
  have c0: "childrenOf nested_example 0 = [1, 2, 3]" "childrenOf nested_example 3 = [5]"
    by (simp_all add: nested_example_def childrenOf_mkDom elementNode_def)
  have p: "parentOf nested_example 1 = Some 0" "parentOf nested_example 2 = Some 0"
    "parentOf nested_example 3 = Some 0" "parentOf nested_example 4 = Some 1"
    "parentOf nested_example 5 = Some 3"
    by (simp_all add: nested_example_def parentOf_mkDom elementNode_def textNode_def)
  have k: "kindOf nested_example 1 = ELEMENT_NODE" "kindOf nested_example 2 = ELEMENT_NODE"
    "kindOf nested_example 3 = ELEMENT_NODE" "kindOf nested_example 4 = TEXT_NODE"
    by (simp_all add: nested_example_def kindOf_mkDom elementNode_def textNode_def)
  have nm: "nodeName (heap nested_example 1) = ''SPAN''" "nodeName (heap nested_example 2) = ''B''"
    "nodeName (heap nested_example 3) = ''B''"
    by (simp_all add: nested_example_def mkDom_def elementNode_def)
  have v5: "nodeValue (heap nested_example 5) = Some ''b''"
    by (simp add: nested_example_def mkDom_def textNode_def)
  define s' where "s' = removeNode 3 (removeNode 2 (setNodeValue 4 [] nested_example))"
  have wk: "walk (logged tidying) ?f (nested_example, (), []) =
            (True, s', (), [(1, True), (4, True), (2, True), (3, True)])"
    using p k nm by (simp add: logged_def tidying_def s'_def)
  from each_safe_under_removal[OF w g, of 0 "()"]
  obtain ok2 s2 a2 log where r: "each (logged tidying) 0 (nested_example, (), []) = Some (ok2, s2, a2, log)"
    "each tidying 0 (nested_example, ()) = Some (ok2, s2, a2)"
    by blast
  have "each (logged tidying) 0 (nested_example, (), []) =
          Some (True, s', (), [(1, True), (4, True), (2, True), (3, True)])"
    using each_via_forest[OF w gentle_logged[OF g] sh, of "((), [])"] wk by simp
  with r have "ok2 = True" "s2 = s'" "log = [(1, True), (4, True), (2, True), (3, True)]" by simp_all
  moreover have "reached s' ?f = [1, 4, 2, 3]" using p by (simp add: s'_def)
  moreover have "childrenOf s' 0 = [1]" "childrenOf s' 3 = [5]" using p c0 by (simp_all add: s'_def)
  moreover have "nodeValue (heap s' 4) = Some []" "nodeValue (heap s' 5) = Some ''b''"
    using v5 by (simp_all add: s'_def setNodeValue_def)
  ultimately show ?thesis using w g r by auto
qed

subsection \<open>\<open>Dom.isEmpty\<close>\<close>

text \<open>The nodes that make their surroundings non-empty: text that is not blank, and the
  elements the regular expression accepts.\<close>

definition counts :: "(string \<Rightarrow> bool) \<Rightarrow> dom \<Rightarrow> node_id \<Rightarrow> bool" where
  "counts condNoEmptyElement s m \<longleftrightarrow>
     (kindOf s m = TEXT_NODE \<and> (\<exists>v. nodeValue (heap s m) = Some v \<and> length (trim v) \<noteq> 0)) \<or>
     (kindOf s m = ELEMENT_NODE \<and> condNoEmptyElement (toLowerCase (nodeName (heap s m))))"

lemma notEmptyCallback_counts:
  "notEmptyCallback c m (s, ()) = (\<not> counts c s m, s, ())"
  by (auto simp: notEmptyCallback_def counts_def isText_def isElement_def)

lemma gentle_notEmptyCallback: "gentle (notEmptyCallback c)"
  by (simp add: gentle_def sameTree_def notEmptyCallback_def)

lemma walk_notEmptyCallback:
  "shaped s p f \<Longrightarrow>
   walk (notEmptyCallback c) f (s, ()) = ((\<forall>m\<in>set (nodesOf f). \<not> counts c s m), s, ())"
proof (induction f arbitrary: p)
  case Empty
  show ?case by simp
next
  case (Node n k r)
  have "parentOf s n = Some p" "shaped s n k" "shaped s p r" using Node.prems by simp_all
  then show ?case
    using Node.IH(1)[of n] Node.IH(2)[of p] by (auto simp: notEmptyCallback_counts)
qed

lemma nodesOf_closed:
  "shaped s p f \<Longrightarrow> m \<in> set (nodesOf f) \<Longrightarrow> set (childrenOf s m) \<subseteq> set (nodesOf f)"
proof (induction f arbitrary: p)
  case Empty
  then show ?case by simp
next
  case (Node n k r)
  from Node.prems(2) consider "m = n" | "m \<in> set (nodesOf k)" | "m \<in> set (nodesOf r)" by auto
  then show ?case
  proof cases
    case 1
    then show ?thesis using Node.prems(1) roots_subset_nodesOf[of k] by auto
  next
    case 2
    then show ?thesis using Node.IH(1)[of n] Node.prems(1) by auto
  next
    case 3
    then show ?thesis using Node.IH(2)[of p] Node.prems(1) by auto
  qed
qed

lemma nodesOf_descendants:
  assumes w: "wf_dom s" and sh: "shaped s p f" and r: "roots f = childrenOf s p"
  shows "set (nodesOf f) = {m. (p, m) \<in> (parentRel s)\<^sup>+}"
proof (intro set_eqI iffI)
  fix x assume "x \<in> set (nodesOf f)"
  then show "x \<in> {m. (p, m) \<in> (parentRel s)\<^sup>+}"
    using nodesOf_below_parent[OF sh] by simp
next
  fix x assume "x \<in> {m. (p, m) \<in> (parentRel s)\<^sup>+}"
  then have "(p, x) \<in> (parentRel s)\<^sup>+" by simp
  then show "x \<in> set (nodesOf f)"
  proof (induction rule: trancl_induct)
    case (base y)
    then have "y \<in> set (childrenOf s p)" using wf_domD(1)[OF w] by simp
    then show ?case using r roots_subset_nodesOf[of f] by auto
  next
    case (step y z)
    then have "z \<in> set (childrenOf s y)" using wf_domD(1)[OF w] by simp
    then show ?case using nodesOf_closed[OF sh step.IH] by auto
  qed
qed

text \<open>The value of \<open>Dom.isEmpty\<close> on every node of a well-formed document.\<close>

lemma isEmpty_value:
  assumes w: "wf_dom s"
  shows "isEmpty s (Some n) c =
           Some (if kindOf s n = TEXT_NODE
                 then (case nodeValue (heap s n) of None \<Rightarrow> True | Some v \<Rightarrow> length (trim v) = 0)
                 else \<not> c (toLowerCase (nodeName (heap s n))) \<and>
                      (\<forall>m. (n, m) \<in> (parentRel s)\<^sup>+ \<longrightarrow> \<not> counts c s m))"
proof -
  from forest_exists[OF w, of n] obtain f where f: "roots f = childrenOf s n" "shaped s n f"
    by blast
  have e: "each (notEmptyCallback c) n (s, ()) = Some ((\<forall>m\<in>set (nodesOf f). \<not> counts c s m), s, ())"
    using each_via_forest[OF w gentle_notEmptyCallback f(2,1), of c "()"]
    by (simp add: walk_notEmptyCallback[OF f(2)])
  have d: "set (nodesOf f) = {m. (n, m) \<in> (parentRel s)\<^sup>+}"
    using w f(2,1) by (rule nodesOf_descendants)
  show ?thesis
    by (simp add: isEmpty_def isText_def e d)
qed

text \<open>
  Claim C6. With the default exception set, on a well-formed document: a text node is
  empty exactly when its value is null or trims to nothing; a node whose only child is an
  \<open>img\<close> element is not empty; an element outside the exception set whose children are
  all text nodes of white space is empty; and a node that has, anywhere below it, a text
  node that is not blank is not empty, whatever empty elements stand beside or around
  that text.
\<close>

theorem isEmpty_default:
  assumes w: "wf_dom s"
  shows "(kindOf s n = TEXT_NODE \<longrightarrow>
            isEmpty s (Some n) defaultNoEmptyElement =
              Some (nodeValue (heap s n) = None \<or> length (trim (the (nodeValue (heap s n)))) = 0)) \<and>
         (kindOf s n \<noteq> TEXT_NODE \<and> childrenOf s n = [c] \<and> isTag s (Some c) ''img'' \<longrightarrow>
            isEmpty s (Some n) defaultNoEmptyElement = Some False) \<and>
         (kindOf s n = ELEMENT_NODE \<and> \<not> defaultNoEmptyElement (toLowerCase (nodeName (heap s n))) \<and>
          (\<forall>t\<in>set (childrenOf s n). kindOf s t = TEXT_NODE \<and>
              (\<forall>v. nodeValue (heap s t) = Some v \<longrightarrow> length (trim v) = 0)) \<longrightarrow>
            isEmpty s (Some n) defaultNoEmptyElement = Some True) \<and>
         (kindOf s n \<noteq> TEXT_NODE \<and> (n, t) \<in> (parentRel s)\<^sup>+ \<and> kindOf s t = TEXT_NODE \<and>
          nodeValue (heap s t) = Some v \<and> length (trim v) \<noteq> 0 \<longrightarrow>
            isEmpty s (Some n) defaultNoEmptyElement = Some False)"
proof (intro conjI impI)
  assume "kindOf s n = TEXT_NODE"
  then show "isEmpty s (Some n) defaultNoEmptyElement =
              Some (nodeValue (heap s n) = None \<or> length (trim (the (nodeValue (heap s n)))) = 0)"
    by (simp add: isEmpty_value[OF w] split: option.splits)
next
  assume a: "kindOf s n \<noteq> TEXT_NODE \<and> childrenOf s n = [c] \<and> isTag s (Some c) ''img''"
  then have "c \<in> set (childrenOf s n)" by simp
  then have "(n, c) \<in> (parentRel s)\<^sup>+" using wf_domD(2)[OF w] by auto
  moreover have "counts defaultNoEmptyElement s c"
    using a by (simp add: counts_def isTag_def defaultNoEmptyElement_def toLowerCase_def)
  ultimately show "isEmpty s (Some n) defaultNoEmptyElement = Some False"
    using a by (auto simp: isEmpty_value[OF w])
next
  assume a: "kindOf s n = ELEMENT_NODE \<and> \<not> defaultNoEmptyElement (toLowerCase (nodeName (heap s n))) \<and>
          (\<forall>t\<in>set (childrenOf s n). kindOf s t = TEXT_NODE \<and>
              (\<forall>v. nodeValue (heap s t) = Some v \<longrightarrow> length (trim v) = 0))"
  have "\<not> counts defaultNoEmptyElement s m" if "(n, m) \<in> (parentRel s)\<^sup>+" for m
    using that
  proof (induction rule: trancl_induct)
    case (base y)
    then have "y \<in> set (childrenOf s n)" using wf_domD(1)[OF w] by simp
    then show ?case using a by (auto simp: counts_def)
  next
    case (step y z)
    from step.hyps(1) have "y \<in> set (childrenOf s n) \<or> (\<exists>x. (n, x) \<in> (parentRel s)\<^sup>+ \<and> parentOf s y = Some x \<and> kindOf s x = TEXT_NODE)"
    proof (induction rule: trancl_induct)
      case (base y)
      then show ?case using wf_domD(1)[OF w] by simp
    next
      case (step y z)
      have "False" if "y \<in> set (childrenOf s n)"
      proof -
        from that a have "kindOf s y = TEXT_NODE" by simp
        then have "childrenOf s y = []" using wf_domD(6)[OF w] by simp
        moreover have "z \<in> set (childrenOf s y)" using step.hyps(2) wf_domD(1)[OF w] by simp
        ultimately show False by simp
      qed
      moreover have "False" if "parentOf s y = Some x" "kindOf s x = TEXT_NODE" for x
      proof -
        have "childrenOf s x = []" using that(2) wf_domD(6)[OF w] by simp
        moreover have "y \<in> set (childrenOf s x)" using that(1) wf_domD(1)[OF w] by simp
        ultimately show False by simp
      qed
      ultimately show ?case using step.IH by blast
    qed
    then have "kindOf s y = TEXT_NODE \<or> False"
      using a wf_domD(6)[OF w] wf_domD(1)[OF w] by fastforce
    then have "childrenOf s y = []" using wf_domD(6)[OF w] by simp
    moreover have "z \<in> set (childrenOf s y)" using step.hyps(2) wf_domD(1)[OF w] by simp
    ultimately show ?case by simp
  qed
  then show "isEmpty s (Some n) defaultNoEmptyElement = Some True"
    using a by (simp add: isEmpty_value[OF w])
next
  assume a: "kindOf s n \<noteq> TEXT_NODE \<and> (n, t) \<in> (parentRel s)\<^sup>+ \<and> kindOf s t = TEXT_NODE \<and>
          nodeValue (heap s t) = Some v \<and> length (trim v) \<noteq> 0"
  then have "counts defaultNoEmptyElement s t" by (simp add: counts_def)
  then show "isEmpty s (Some n) defaultNoEmptyElement = Some False"
    using a by (auto simp: isEmpty_value[OF w])
qed

text \<open>\<open><div><img></div>\<close>, a div holding two text nodes of white space,
  \<open><div><span></span>abc</div>\<close> and \<open><div><span>abc</span></div>\<close>.\<close>

lemma heap_mkDom: "heap (mkDom ns) n = (if n < length ns then ns ! n else blank)"
  by (simp add: mkDom_def)

definition empty_examples :: "dom \<times> dom \<times> dom \<times> dom" where
  "empty_examples =
     (mkDom [elementNode ''DIV'' None [1], elementNode ''IMG'' (Some 0) []],
      mkDom [elementNode ''DIV'' None [1, 2], textNode ''  '' (Some 0), textNode [CHR 0x0A, CHR 0x09] (Some 0)],
      mkDom [elementNode ''DIV'' None [1, 2], elementNode ''SPAN'' (Some 0) [], textNode ''abc'' (Some 0)],
      mkDom [elementNode ''DIV'' None [1], elementNode ''SPAN'' (Some 0) [2], textNode ''abc'' (Some 1)])"

theorem isEmpty_default_witness:
  "(case empty_examples of (a, b, c, d) \<Rightarrow>
      wf_dom a \<and> wf_dom b \<and> wf_dom c \<and> wf_dom d \<and>
      isEmpty a (Some 0) defaultNoEmptyElement = Some False \<and>
      isEmpty b (Some 0) defaultNoEmptyElement = Some True \<and>
      isEmpty b (Some 1) defaultNoEmptyElement = Some True \<and>
      isEmpty c (Some 0) defaultNoEmptyElement = Some False \<and>
      isEmpty c (Some 2) defaultNoEmptyElement = Some False \<and>
      isEmpty d (Some 0) defaultNoEmptyElement = Some False)"
proof -
  define a where "a = mkDom [elementNode ''DIV'' None [1], elementNode ''IMG'' (Some 0) []]"
  define b where "b = mkDom [elementNode ''DIV'' None [1, 2], textNode ''  '' (Some 0), textNode [CHR 0x0A, CHR 0x09] (Some 0)]"
  define c where "c = mkDom [elementNode ''DIV'' None [1, 2], elementNode ''SPAN'' (Some 0) [], textNode ''abc'' (Some 0)]"
  define d where "d = mkDom [elementNode ''DIV'' None [1], elementNode ''SPAN'' (Some 0) [2], textNode ''abc'' (Some 1)]"
  have wa: "wf_dom a" unfolding a_def
    by (rule wf_dom_mkDom) (simp add: dom_ok_def node_ok_def elementNode_def textNode_def All_less_Suc)
  have wb: "wf_dom b" unfolding b_def
    by (rule wf_dom_mkDom) (simp add: dom_ok_def node_ok_def elementNode_def textNode_def All_less_Suc)
  have wc: "wf_dom c" unfolding c_def
    by (rule wf_dom_mkDom) (simp add: dom_ok_def node_ok_def elementNode_def textNode_def All_less_Suc)
  have wd: "wf_dom d" unfolding d_def
    by (rule wf_dom_mkDom) (simp add: dom_ok_def node_ok_def elementNode_def textNode_def All_less_Suc)
  have ea: "isEmpty a (Some 0) defaultNoEmptyElement = Some False"
    using isEmpty_default[OF wa, of 0 1, THEN conjunct2, THEN conjunct1]
    by (simp add: a_def kindOf_mkDom childrenOf_mkDom isTag_def elementNode_def toLowerCase_def heap_mkDom)
  have eb: "isEmpty b (Some 0) defaultNoEmptyElement = Some True"
    using isEmpty_default[OF wb, of 0, THEN conjunct2, THEN conjunct2, THEN conjunct1]
    by (simp add: b_def kindOf_mkDom childrenOf_mkDom elementNode_def textNode_def toLowerCase_def
        heap_mkDom defaultNoEmptyElement_def trim_def isSpaceChar_def)
  have eb1: "isEmpty b (Some 1) defaultNoEmptyElement = Some True"
    using isEmpty_default[OF wb, of 1, THEN conjunct1]
    by (simp add: b_def kindOf_mkDom textNode_def heap_mkDom trim_def isSpaceChar_def)
  have p02: "(0, 2) \<in> (parentRel c)\<^sup>+"
    by (rule r_into_trancl) (simp add: c_def parentOf_mkDom textNode_def)
  have ec: "isEmpty c (Some 0) defaultNoEmptyElement = Some False"
    using isEmpty_default[OF wc, of 0 _ 2 "''abc''", THEN conjunct2, THEN conjunct2, THEN conjunct2] p02
    by (simp add: c_def kindOf_mkDom elementNode_def textNode_def heap_mkDom trim_def isSpaceChar_def)
  have ec2: "isEmpty c (Some 2) defaultNoEmptyElement = Some False"
    using isEmpty_default[OF wc, of 2, THEN conjunct1]
    by (simp add: c_def kindOf_mkDom textNode_def heap_mkDom trim_def isSpaceChar_def)
  have "(0, 1) \<in> parentRel d" "(1, 2) \<in> parentRel d"
    by (simp_all add: d_def parentOf_mkDom elementNode_def textNode_def)
  then have q02: "(0, 2) \<in> (parentRel d)\<^sup>+" by (rule trancl.intros(2)[OF r_into_trancl])
  have ed: "isEmpty d (Some 0) defaultNoEmptyElement = Some False"
    using isEmpty_default[OF wd, of 0 _ 2 "''abc''", THEN conjunct2, THEN conjunct2, THEN conjunct2] q02
    by (simp add: d_def kindOf_mkDom elementNode_def textNode_def heap_mkDom trim_def isSpaceChar_def)
  show ?thesis
    using wa wb wc wd ea eb eb1 ec ec2 ed
    by (simp add: empty_examples_def a_def b_def c_def d_def)
qed

section \<open>More of \<open>src/core/dom.ts\<close>: classifier, \<open>up\<close>, \<open>closest\<close>, \<open>replace\<close>, \<open>after\<close>\<close>

text \<open>
  The constant \<open>INVISIBLE_SPACE_REG_EXP\<close> of \<open>core/constants\<close> is not under \<open>src/\<close>; it
  matches the zero-width no-break space U+FEFF, three bytes in the UTF-8 strings of the
  model.
\<close>

definition INVISIBLE_SPACE :: string where
  "INVISIBLE_SPACE = [CHR 0xEF, CHR 0xBB, CHR 0xBF]"

fun removeInvisible :: "string \<Rightarrow> string" where
  "removeInvisible (a # b # c # cs) =
     (if [a, b, c] = INVISIBLE_SPACE then removeInvisible cs else a # removeInvisible (b # c # cs))"
| "removeInvisible cs = cs"

definition isEmptyTextNode :: "dom \<Rightarrow> node_id option \<Rightarrow> bool" where
  "isEmptyTextNode s node =
     (case node of
        None \<Rightarrow> False
      | Some n \<Rightarrow>
          isText s (Some n) \<and>
          (case nodeValue (heap s n) of
             None \<Rightarrow> True
           | Some v \<Rightarrow> v = [] \<or> length (removeInvisible v) = 0))"

text \<open>
  Modelled from the spec: the constant \<open>IS_BLOCK\<close> of \<open>core/constants\<close> is not under \<open>src/\<close>;
  section 4.1 describes it as a fixed set of block-level tag names, matched in either case.
\<close>

definition IS_BLOCK :: "string \<Rightarrow> bool" where
  "IS_BLOCK name \<longleftrightarrow>
     toLowerCase name \<in> set [''pre'', ''div'', ''p'', ''li'', ''ul'', ''ol'', ''h1'', ''h2'', ''h3'', ''h4'',
        ''h5'', ''h6'', ''blockquote'', ''td'', ''th'', ''table'', ''body'', ''html'', ''figcaption'',
        ''figure'', ''dt'', ''dd'']"

definition isBlock :: "dom \<Rightarrow> node_id option \<Rightarrow> bool" where
  "isBlock s node = (case node of None \<Rightarrow> False | Some n \<Rightarrow> IS_BLOCK (nodeName (heap s n)))"

text \<open>\<open>Dom.isHTMLElement\<close>: every element of the model is an HTML element.\<close>

definition isHTMLElement :: "dom \<Rightarrow> node_id option \<Rightarrow> bool" where
  "isHTMLElement s node = isElement s node"

text \<open>\<open>Dom.up\<close>; the root is optional in the source.\<close>

partial_function (option) up ::
    "dom \<Rightarrow> (node_id option \<Rightarrow> bool) \<Rightarrow> node_id option \<Rightarrow> node_id \<Rightarrow> node_id option option" where
  "up s condition root start =
     (if condition (Some start) then Some (Some start)
      else if Some start = root \<or> parentOf s start = None then Some None
      else if parentOf s start = root then Some None
      else up s condition root (the (parentOf s start)))"

definition closest ::
    "dom \<Rightarrow> node_id \<Rightarrow> (node_id option \<Rightarrow> bool) \<Rightarrow> node_id \<Rightarrow> node_id option option" where
  "closest s node condition root = up s condition (Some root) node"

text \<open>\<open>parent.replaceChild(new, old)\<close> of the DOM standard, for a node that is not a fragment.\<close>

definition replaceChild :: "node_id \<Rightarrow> node_id \<Rightarrow> node_id \<Rightarrow> dom \<Rightarrow> dom outcome" where
  "replaceChild p new old s =
     (if kindOf s p = TEXT_NODE then throws HierarchyRequestError
      else case ancestorOrSelf s new p of
        None \<Rightarrow> None
      | Some True \<Rightarrow> throws HierarchyRequestError
      | Some False \<Rightarrow>
          if parentOf s old \<noteq> Some p then throws NotFoundError
          else
            let ref = (if nextSibling s old = Some new then nextSibling s new else nextSibling s old);
                s1 = removeNode new (removeNode old s)
            in returns (setParent new (Some p)
                          (setChildren p (insertAt [new] ref (childrenOf s1 p)) s1)))"

partial_function (option) moveChildren :: "node_id \<Rightarrow> node_id \<Rightarrow> dom \<Rightarrow> dom outcome" where
  "moveChildren elm tag s =
     (case firstChild s elm of
        None \<Rightarrow> returns s
      | Some c \<Rightarrow> andThen (appendChild tag c s) (moveChildren elm tag))"

text \<open>\<open>Dom.replace\<close>; the style attribute is the \<open>cssStyle\<close> field of the model.\<close>

definition replace ::
    "node_id \<Rightarrow> string + node_id \<Rightarrow> bool \<Rightarrow> bool \<Rightarrow> dom \<Rightarrow> (node_id \<times> dom) outcome" where
  "replace elm newTagName withAttributes notMoveContent s =
     (let made = (case newTagName of Inl name \<Rightarrow> createElement name s | Inr e \<Rightarrow> (e, s));
          tag = fst made; s0 = snd made
      in andThen (if \<not> notMoveContent then moveChildren elm tag s0 else returns s0) (\<lambda>s1.
           let s2 = (if withAttributes
                     then s1\<lparr>heap := (heap s1)(tag := (heap s1 tag)
                            \<lparr>cssStyle := (if cssStyle (heap s1 elm) = [] then cssStyle (heap s1 tag)
                                           else cssStyle (heap s1 elm)),
                             attrs := filter (\<lambda>kv. fst kv \<notin> fst ` set (attrs (heap s1 elm))) (attrs (heap s1 tag))
                                      @ attrs (heap s1 elm)\<rparr>)\<rparr>
                     else s1)
           in case parentOf s2 elm of
                None \<Rightarrow> returns (tag, s2)
              | Some p \<Rightarrow> andThen (replaceChild p tag elm s2) (\<lambda>s3. returns (tag, s3))))"

text \<open>\<open>Dom.after\<close>.\<close>

definition after :: "node_id \<Rightarrow> node_id \<Rightarrow> dom \<Rightarrow> dom outcome" where
  "after elm newElement s =
     (case parentOf s elm of
        None \<Rightarrow> returns s
      | Some par \<Rightarrow>
          if lastChild s par = Some elm then appendChild par newElement s
          else insertBefore par newElement (nextSibling s elm) s)"

section \<open>Ranges of the DOM standard\<close>

text \<open>
  A boundary point is a node and an offset among its children. The callers in \<open>src/\<close> set
  boundaries before and after nodes only, so the container of a boundary is never a text
  node, and they set the start at or before the end. \<open>extractContents\<close> follows the
  standard: fully contained children are moved, a partially contained child is cloned
  and the part of it that lies in the range is extracted into the clone.
\<close>

type_synonym boundary = "node_id \<times> nat"

definition indexOf :: "dom \<Rightarrow> node_id \<Rightarrow> nat" where
  "indexOf s n =
     (case parentOf s n of None \<Rightarrow> 0 | Some p \<Rightarrow> length (takeWhile (\<lambda>c. c \<noteq> n) (childrenOf s p)))"

definition boundaryBefore :: "dom \<Rightarrow> node_id \<Rightarrow> boundary outcome" where
  "boundaryBefore s n =
     (case parentOf s n of None \<Rightarrow> throws InvalidNodeTypeError | Some p \<Rightarrow> returns (p, indexOf s n))"

definition boundaryAfter :: "dom \<Rightarrow> node_id \<Rightarrow> boundary outcome" where
  "boundaryAfter s n =
     (case parentOf s n of None \<Rightarrow> throws InvalidNodeTypeError | Some p \<Rightarrow> returns (p, Suc (indexOf s n)))"

text \<open>The child of \<open>anc\<close> on the way down to \<open>q\<close>.\<close>

partial_function (option) childToward :: "dom \<Rightarrow> node_id \<Rightarrow> node_id \<Rightarrow> node_id option option" where
  "childToward s anc q =
     (case parentOf s q of
        None \<Rightarrow> Some None
      | Some p \<Rightarrow> if p = anc then Some (Some q) else childToward s anc p)"

partial_function (option) commonAncestor :: "dom \<Rightarrow> node_id \<Rightarrow> node_id \<Rightarrow> node_id option option" where
  "commonAncestor s a b =
     Option.bind (ancestorOrSelf s a b) (\<lambda>above.
       if above then Some (Some a)
       else case parentOf s a of None \<Rightarrow> Some None | Some p \<Rightarrow> commonAncestor s p b)"

fun appendAll :: "node_id list \<Rightarrow> node_id \<Rightarrow> dom \<Rightarrow> dom outcome" where
  "appendAll [] target s = returns s"
| "appendAll (n # ns) target s = andThen (appendChild target n s) (appendAll ns target)"

definition cloneNode :: "node_id \<Rightarrow> dom \<Rightarrow> node_id \<times> dom" where
  "cloneNode n s =
     (fresh s, s\<lparr>heap := (heap s)(fresh s := (heap s n)\<lparr>parentNode := None, childNodes := []\<rparr>),
                 fresh := Suc (fresh s)\<rparr>)"

definition createDocumentFragment :: "dom \<Rightarrow> node_id \<times> dom" where
  "createDocumentFragment s =
     (fresh s, s\<lparr>heap := (heap s)(fresh s := \<lparr>nodeType = DOCUMENT_FRAGMENT_NODE,
                     nodeName = ''#document-fragment'', nodeValue = None, parentNode = None,
                     childNodes = [], cssStyle = [], attrs = []\<rparr>),
                 fresh := Suc (fresh s)\<rparr>)"

text \<open>From the start of \<open>anc\<close>'s child number \<open>so\<close> up to the boundary \<open>(q, eo)\<close> below \<open>anc\<close>.\<close>

partial_function (option) extractHead ::
    "node_id \<Rightarrow> nat \<Rightarrow> node_id \<Rightarrow> nat \<Rightarrow> node_id \<Rightarrow> dom \<Rightarrow> dom outcome" where
  "extractHead anc so q eo target s =
     (if anc = q then appendAll (take (eo - so) (drop so (childrenOf s anc))) target s
      else case childToward s anc q of
        None \<Rightarrow> None
      | Some None \<Rightarrow> returns s
      | Some (Some c) \<Rightarrow>
          andThen (appendAll (take (indexOf s c - so) (drop so (childrenOf s anc))) target s) (\<lambda>s1.
            andThen (appendChild target (fst (cloneNode c s1)) (snd (cloneNode c s1))) (\<lambda>s2.
              extractHead c 0 q eo (fst (cloneNode c s1)) s2)))"

text \<open>From the boundary \<open>(q, so)\<close> below \<open>lim\<close> to the end of \<open>lim\<close>.\<close>

partial_function (option) extractTail ::
    "node_id \<Rightarrow> nat \<Rightarrow> node_id \<Rightarrow> node_id \<Rightarrow> dom \<Rightarrow> dom outcome" where
  "extractTail q so lim target s =
     (if lim = q then appendAll (drop so (childrenOf s lim)) target s
      else case childToward s lim q of
        None \<Rightarrow> None
      | Some None \<Rightarrow> returns s
      | Some (Some c) \<Rightarrow>
          andThen (appendChild target (fst (cloneNode c s)) (snd (cloneNode c s))) (\<lambda>s1.
            andThen (extractTail q so c (fst (cloneNode c s)) s1) (\<lambda>s2.
              appendAll (drop (Suc (indexOf s c)) (childrenOf s lim)) target s2)))"

text \<open>\<open>range.extractContents()\<close>: the fragment, the point the range collapses to, the document.\<close>

definition extractContents ::
    "boundary \<Rightarrow> boundary \<Rightarrow> dom \<Rightarrow> (node_id \<times> boundary \<times> dom) outcome" where
  "extractContents start stop s =
     (let frag = fst (createDocumentFragment s); s0 = snd (createDocumentFragment s);
          sc = fst start; so = snd start; ec = fst stop; eo = snd stop
      in if start = stop then returns (frag, start, s0)
         else if sc = ec then
           andThen (appendAll (take (eo - so) (drop so (childrenOf s0 sc))) frag s0) (\<lambda>s1.
             returns (frag, start, s1))
         else case commonAncestor s0 sc ec of
           None \<Rightarrow> None
         | Some None \<Rightarrow> returns (frag, start, s0)
         | Some (Some ca) \<Rightarrow>
             if ca = sc then
               andThen (extractHead sc so ec eo frag s0) (\<lambda>s1. returns (frag, start, s1))
             else case childToward s0 ca sc of
               None \<Rightarrow> None
             | Some None \<Rightarrow> returns (frag, start, s0)
             | Some (Some f) \<Rightarrow>
                 andThen (appendChild frag (fst (cloneNode f s0)) (snd (cloneNode f s0))) (\<lambda>s1.
                 andThen (extractTail sc so f (fst (cloneNode f s0)) s1) (\<lambda>s2.
                   if ca = ec then
                     andThen (appendAll (take (eo - Suc (indexOf s0 f))
                                (drop (Suc (indexOf s0 f)) (childrenOf s0 ec))) frag s2) (\<lambda>s3.
                       returns (frag, (ca, Suc (indexOf s0 f)), s3))
                   else case childToward s0 ca ec of
                     None \<Rightarrow> None
                   | Some None \<Rightarrow> returns (frag, (ca, Suc (indexOf s0 f)), s2)
                   | Some (Some l) \<Rightarrow>
                       andThen (appendAll (take (indexOf s0 l - Suc (indexOf s0 f))
                                  (drop (Suc (indexOf s0 f)) (childrenOf s0 ca))) frag s2) (\<lambda>s3.
                       andThen (appendChild frag (fst (cloneNode l s3)) (snd (cloneNode l s3))) (\<lambda>s4.
                       andThen (extractHead l 0 ec eo (fst (cloneNode l s3)) s4) (\<lambda>s5.
                         returns (frag, (ca, Suc (indexOf s0 f)), s5)))))))"

text \<open>\<open>range.insertNode(node)\<close> for a collapsed range at a boundary.\<close>

definition insertNodeAt :: "boundary \<Rightarrow> node_id \<Rightarrow> dom \<Rightarrow> dom outcome" where
  "insertNodeAt b node s =
     (let cs = childrenOf s (fst b);
          ref = (if snd b < length cs then Some (cs ! snd b) else None)
      in insertBefore (fst b) node (if ref = Some node then nextSibling s node else ref) s)"

text \<open>\<open>node.textContent\<close>: the text below the nodes of a list, in document order.\<close>

partial_function (option) textOf :: "dom \<Rightarrow> node_id list \<Rightarrow> string option" where
  "textOf s ns =
     (case ns of
        [] \<Rightarrow> Some []
      | n # rest \<Rightarrow>
          Option.bind (if kindOf s n = TEXT_NODE
                       then Some (case nodeValue (heap s n) of None \<Rightarrow> [] | Some v \<Rightarrow> v)
                       else textOf s (childrenOf s n)) (\<lambda>a.
            Option.bind (textOf s rest) (\<lambda>b. Some (a @ b))))"

definition textContent :: "dom \<Rightarrow> node_id \<Rightarrow> string option" where
  "textContent s n = textOf s (childrenOf s n)"

section \<open>The Style Applicator (\<open>src/unnamed/part_000\<close>)\<close>

datatype mode = UNWRAP | WRAP

text \<open>The style descriptor; \<open>optionsStyle\<close> is \<open>options.style\<close>, \<open>None\<close> when it is undefined,
  and a rule's value is \<open>None\<close> when it is undefined.\<close>

record Style =
  element :: string
  defaultTag :: string
  elementIsBlock :: bool
  optionsStyle :: "(string \<times> string option) list option"

record ApplyStyle =
  jodit :: jodit
  style :: Style
  mode :: "mode option"

definition docOf :: "ApplyStyle \<Rightarrow> dom" where
  "docOf st = doc (jodit st)"

definition setDoc :: "dom \<Rightarrow> ApplyStyle \<Rightarrow> ApplyStyle" where
  "setDoc d st = st\<lparr>jodit := (jodit st)\<lparr>doc := d\<rparr>\<rparr>"

text \<open>
  Modelled from the spec: the helpers \<open>css\<close>, \<open>attr\<close> and \<open>normalizeCssValue\<close> are not under
  \<open>src/\<close>. The model has no style sheets: the value of a property of an element is its
  inline value, the empty string when it has none; setting the empty string removes the
  property; the style attribute is there when a property is set; a normalised value is
  the value.
\<close>

definition css :: "dom \<Rightarrow> node_id \<Rightarrow> string \<Rightarrow> string" where
  "css s elm property = (case map_of (cssStyle (heap s elm)) property of None \<Rightarrow> [] | Some v \<Rightarrow> v)"

definition cssSet :: "node_id \<Rightarrow> string \<Rightarrow> string \<Rightarrow> dom \<Rightarrow> dom" where
  "cssSet elm property v s =
     s\<lparr>heap := (heap s)(elm := (heap s elm)
         \<lparr>cssStyle := filter (\<lambda>kv. fst kv \<noteq> property) (cssStyle (heap s elm)) @
                       (if v = [] then [] else [(property, v)])\<rparr>)\<rparr>"

fun cssAll :: "node_id \<Rightarrow> (string \<times> string option) list \<Rightarrow> dom \<Rightarrow> dom" where
  "cssAll elm [] s = s"
| "cssAll elm ((property, v) # rest) s =
     cssAll elm rest (case v of None \<Rightarrow> s | Some w \<Rightarrow> cssSet elm property w s)"

definition attrStyle :: "dom \<Rightarrow> node_id \<Rightarrow> bool" where
  "attrStyle s elm \<longleftrightarrow> cssStyle (heap s elm) \<noteq> []"

text \<open>
  Modelled from the spec: \<open>selection.isMarker\<close> is not under \<open>src/\<close>. A marker is the
  temporary element the selection manager puts at a saved position; the model knows it
  by the attribute the manager gives it.
\<close>

definition isMarker :: "dom \<Rightarrow> node_id option \<Rightarrow> bool" where
  "isMarker s elm =
     (case elm of
        None \<Rightarrow> False
      | Some n \<Rightarrow> isTag s (Some n) ''span'' \<and> map_of (attrs (heap s n)) ''data-jodit-selection_marker'' \<noteq> None)"

definition elementHasSameStyle ::
    "dom \<Rightarrow> node_id \<Rightarrow> (string \<times> string option) list option \<Rightarrow> bool" where
  "elementHasSameStyle s elm rules =
     (case rules of
        None \<Rightarrow> False
      | Some rs \<Rightarrow>
          \<not> isTag s (Some elm) ''font'' \<and> isHTMLElement s (Some elm) \<and>
          list_all (\<lambda>rule. css s elm (fst rule) \<noteq> [] \<and>
                      (case snd rule of
                         None \<Rightarrow> False
                       | Some checkValue \<Rightarrow> toLowerCase checkValue = toLowerCase (css s elm (fst rule)))) rs)"

definition isNormalNode :: "ApplyStyle \<Rightarrow> node_id option \<Rightarrow> bool" where
  "isNormalNode st elm \<longleftrightarrow> elm \<noteq> None \<and> \<not> isEmptyTextNode (docOf st) elm \<and> \<not> isMarker (docOf st) elm"

definition isSuitableElement :: "ApplyStyle \<Rightarrow> node_id option \<Rightarrow> bool \<Rightarrow> bool" where
  "isSuitableElement st elm strict =
     (case elm of
        None \<Rightarrow> False
      | Some e \<Rightarrow>
          let isDefault = (element (style st) = defaultTag (style st));
              elmHasSameStyle = elementHasSameStyle (docOf st) e (optionsStyle (style st));
              elmIsSame = (toLowerCase (nodeName (heap (docOf st) e)) = element (style st))
          in ((\<not> isDefault \<or> \<not> strict) \<and> elmIsSame) \<or> (elmHasSameStyle \<and> isNormalNode st (Some e)))"

text \<open>One round of the \<open>forEach\<close> over the rules in \<open>toggleStyles\<close>.\<close>

definition toggleRule :: "node_id \<Rightarrow> string \<times> string option \<Rightarrow> ApplyStyle \<Rightarrow> ApplyStyle" where
  "toggleRule elm rule st =
     (if mode st = Some UNWRAP \<or> snd rule = Some (css (docOf st) elm (fst rule))
      then (let st1 = setDoc (cssSet elm (fst rule) [] (docOf st)) st
            in if mode st1 = None then st1\<lparr>mode := Some UNWRAP\<rparr> else st1)
      else (let st1 = (case snd rule of
                         None \<Rightarrow> st
                       | Some v \<Rightarrow> setDoc (cssSet elm (fst rule) v (docOf st)) st)
            in if mode st1 = None then st1\<lparr>mode := Some WRAP\<rparr> else st1))"

definition toggleStyles :: "node_id \<Rightarrow> ApplyStyle \<Rightarrow> ApplyStyle outcome" where
  "toggleStyles elm st =
     (let st1 = (case optionsStyle (style st) of
                   None \<Rightarrow> st
                 | Some rs \<Rightarrow>
                     if toLowerCase (nodeName (heap (docOf st) elm)) = defaultTag (style st)
                     then fold (toggleRule elm) rs st else st);
          isBlk = isBlock (docOf st1) (Some elm);
          isSuitableInline =
            (\<not> isBlk \<and> (\<not> attrStyle (docOf st1) elm \<or>
                         toLowerCase (nodeName (heap (docOf st1) elm)) \<noteq> defaultTag (style st1)));
          isSuitableBlock =
            (\<not> isSuitableInline \<and> isBlk \<and>
             toLowerCase (nodeName (heap (docOf st1) elm)) = element (style st1))
      in if isSuitableInline \<or> isSuitableBlock
         then andThen (unwrap elm (docOf st1)) (\<lambda>d.
                returns (if mode st1 = None then (setDoc d st1)\<lparr>mode := Some UNWRAP\<rparr> else setDoc d st1))
         else returns st1)"

definition checkSuitableParent :: "node_id \<Rightarrow> ApplyStyle \<Rightarrow> (bool \<times> ApplyStyle) outcome" where
  "checkSuitableParent font st =
     (case parentOf (docOf st) font of
        None \<Rightarrow> returns (False, st)
      | Some par \<Rightarrow>
          Option.bind (next (docOf st) font (isNormalNode st) par True) (\<lambda>nx.
            if nx \<noteq> None then returns (False, st)
            else Option.bind (prev (docOf st) font (isNormalNode st) par True) (\<lambda>pv.
              if pv \<noteq> None then returns (False, st)
              else if isSuitableElement st (Some par) False \<and> par \<noteq> area (jodit st) \<and>
                      (\<not> isBlock (docOf st) (Some par) \<or> elementIsBlock (style st))
              then andThen (toggleStyles par st) (\<lambda>st'. returns (True, st'))
              else returns (False, st))))"

definition checkSuitableChild :: "node_id \<Rightarrow> ApplyStyle \<Rightarrow> (bool \<times> ApplyStyle) outcome" where
  "checkSuitableChild font st =
     (case firstChild (docOf st) font of
        None \<Rightarrow> returns (False, st)
      | Some child \<Rightarrow>
          Option.bind (next (docOf st) child (isNormalNode st) font True) (\<lambda>nx.
            if nx \<noteq> None then returns (False, st)
            else Option.bind (prev (docOf st) child (isNormalNode st) font True) (\<lambda>pv.
              if pv \<noteq> None then returns (False, st)
              else if isSuitableElement st (Some child) False
              then andThen (toggleStyles child st) (\<lambda>st'. returns (True, st'))
              else returns (False, st))))"

text \<open>The remainder on one side of the fragment: unwrapped when its text is blank.\<close>

definition unwrapIfBlank :: "node_id \<Rightarrow> dom \<Rightarrow> dom outcome" where
  "unwrapIfBlank fragment d =
     Option.bind (textContent d fragment) (\<lambda>txt.
       if trim txt = [] \<and> firstChild d fragment \<noteq> None
       then unwrap (the (firstChild d fragment)) d
       else returns d)"

definition checkClosestWrapper :: "node_id \<Rightarrow> ApplyStyle \<Rightarrow> (bool \<times> ApplyStyle) outcome" where
  "checkClosestWrapper font st =
     Option.bind (closest (docOf st) font (\<lambda>e. isSuitableElement st e True) (editor (jodit st))) (\<lambda>found.
       case found of
         None \<Rightarrow> returns (False, st)
       | Some wrapper \<Rightarrow>
           if elementIsBlock (style st)
           then andThen (toggleStyles wrapper st) (\<lambda>st'. returns (True, st'))
           else
             andThen (boundaryBefore (docOf st) wrapper) (\<lambda>b1.
             andThen (boundaryBefore (docOf st) font) (\<lambda>b2.
             andThen (extractContents b1 b2 (docOf st)) (\<lambda>left.
             andThen (unwrapIfBlank (fst left) (snd (snd left))) (\<lambda>d2.
             andThen (case parentOf d2 wrapper of
                        None \<Rightarrow> returns d2
                      | Some p \<Rightarrow> insertBefore p (fst left) (Some wrapper) d2) (\<lambda>d3.
             andThen (boundaryAfter d3 font) (\<lambda>b3.
             andThen (boundaryAfter d3 wrapper) (\<lambda>b4.
             andThen (extractContents b3 b4 d3) (\<lambda>right.
             andThen (unwrapIfBlank (fst right) (snd (snd right))) (\<lambda>d5.
             andThen (after wrapper (fst right) d5) (\<lambda>d6.
             andThen (toggleStyles wrapper (setDoc d6 st)) (\<lambda>st'.
               returns (True, st')))))))))))))"

text \<open>The condition that \<open>unwrapChildren\<close> hands to \<open>Dom.find\<close>; its state is the list
  \<open>needUnwrap\<close> and the flag \<open>firstElementSuit\<close>. It always answers false.\<close>

definition collectSuitable ::
    "ApplyStyle \<Rightarrow> node_id option \<Rightarrow> node_id list \<times> bool option \<Rightarrow> bool \<times> node_id list \<times> bool option" where
  "collectSuitable st elm acc =
     (if elm \<noteq> None \<and> isSuitableElement st elm True
      then (False, fst acc @ [the elm], if snd acc = None then Some True else snd acc)
      else (False, fst acc, if snd acc = None then Some False else snd acc))"

fun unwrapAll :: "node_id list \<Rightarrow> dom \<Rightarrow> dom outcome" where
  "unwrapAll [] d = returns d"
| "unwrapAll (n # ns) d = andThen (unwrap n d) (unwrapAll ns)"

definition unwrapChildren :: "node_id \<Rightarrow> ApplyStyle \<Rightarrow> (bool \<times> ApplyStyle) outcome" where
  "unwrapChildren font st =
     Option.bind (case firstChild (docOf st) font of
                    None \<Rightarrow> Some (None, [], None)
                  | Some c \<Rightarrow> find (docOf st) (collectSuitable st) font True NextSibling FirstChild c ([], None))
       (\<lambda>scan. andThen (unwrapAll (fst (snd scan)) (docOf st)) (\<lambda>d.
                  returns (snd (snd scan) = Some True, setDoc d st)))"

text \<open>The callbacks \<open>edge(...)\<close> of \<open>wrapUnwrappedText\<close>; the state is the node kept so far.\<close>

definition edge :: "dom \<Rightarrow> node_id option \<Rightarrow> node_id \<Rightarrow> bool \<times> node_id" where
  "edge d node kept =
     (if isBlock d node then (True, kept) else (False, case node of None \<Rightarrow> kept | Some n \<Rightarrow> n))"

definition wrapUnwrappedText :: "node_id \<Rightarrow> ApplyStyle \<Rightarrow> (node_id \<times> ApplyStyle) outcome" where
  "wrapUnwrappedText elm st =
     Option.bind (find (docOf st) (edge (docOf st)) (area (jodit st)) False PreviousSibling LastChild elm elm)
       (\<lambda>before.
     Option.bind (find (docOf st) (edge (docOf st)) (area (jodit st)) False NextSibling FirstChild elm elm)
       (\<lambda>behind.
     andThen (boundaryBefore (docOf st) (snd before)) (\<lambda>b1.
     andThen (boundaryAfter (docOf st) (snd behind)) (\<lambda>b2.
     andThen (extractContents b1 b2 (docOf st)) (\<lambda>cut.
       let made = createElement (element (style st)) (snd (snd cut))
       in andThen (appendChild (fst made) (fst cut) (snd made)) (\<lambda>d3.
          andThen (insertNodeAt (fst (snd cut)) (fst made) d3) (\<lambda>d4.
            returns (fst made, setDoc d4 st))))))))"

text \<open>The four checks of \<open>applyToElement\<close>, joined by \<open>||\<close>.\<close>

definition decide :: "node_id \<Rightarrow> ApplyStyle \<Rightarrow> (bool \<times> ApplyStyle) outcome" where
  "decide font st =
     andThen (checkSuitableParent font st) (\<lambda>r1.
       if fst r1 then returns r1
       else andThen (checkSuitableChild font (snd r1)) (\<lambda>r2.
         if fst r2 then returns r2
         else andThen (checkClosestWrapper font (snd r2)) (\<lambda>r3.
           if fst r3 then returns r3
           else unwrapChildren font (snd r3))))"

text \<open>The rest of \<open>applyToElement\<close> from \<open>let wrapper = font\<close> on.\<close>

definition fallbackWrap :: "node_id \<Rightarrow> ApplyStyle \<Rightarrow> ApplyStyle outcome" where
  "fallbackWrap font st =
     andThen (if elementIsBlock (style st)
              then Option.bind (up (docOf st) (\<lambda>node. node \<noteq> None \<and> isBlock (docOf st) node)
                                  (Some (area (jodit st))) font) (\<lambda>box.
                     case box of
                       Some b \<Rightarrow> returns (b, st)
                     | None \<Rightarrow> wrapUnwrappedText font st)
              else returns (font, st)) (\<lambda>w.
       andThen (replace (fst w) (Inl (element (style st))) False False (docOf (snd w))) (\<lambda>r.
         returns (setDoc (cssAll (fst r)
                            (if element (style st) = defaultTag (style st)
                             then (case optionsStyle (style st) of None \<Rightarrow> [] | Some rs \<Rightarrow> rs)
                             else [])
                            (snd r)) (snd w))))"

definition applyToElement :: "node_id \<Rightarrow> ApplyStyle \<Rightarrow> ApplyStyle outcome" where
  "applyToElement font st =
     andThen (decide font st) (\<lambda>r.
       if fst r then returns (snd r)
       else
         let st1 = (if mode (snd r) = None then (snd r)\<lparr>mode := Some WRAP\<rparr> else snd r)
         in if mode st1 \<noteq> Some WRAP then returns st1 else fallbackWrap font st1)"

text \<open>
  Modelled from the spec: \<open>selection.wrapInTag\<close> is not under \<open>src/\<close>. Section 4.4 has it run
  the per-fragment procedure on every fragment of the selection in turn; the fragments
  are given as a list.
\<close>

fun wrapInTag :: "node_id list \<Rightarrow> ApplyStyle \<Rightarrow> ApplyStyle outcome" where
  "wrapInTag [] st = returns st"
| "wrapInTag (font # fonts) st = andThen (applyToElement font st) (wrapInTag fonts)"

text \<open>\<open>apply\<close> on a selection that is not collapsed (the normalising of the first child
  of the area, a helper outside \<open>src/\<close>, is left out).\<close>

definition apply_selection :: "node_id list \<Rightarrow> ApplyStyle \<Rightarrow> ApplyStyle outcome" where
  "apply_selection fonts st =
     (let selInfo = fst (save (jodit st)); st1 = st\<lparr>jodit := snd (save (jodit st))\<rparr>
      in andThen (wrapInTag fonts st1) (\<lambda>st2. returns (st2\<lparr>jodit := restore selInfo (jodit st2)\<rparr>)))"

subsection \<open>\<open>isSuitableElement\<close>\<close>

text \<open>Claim C3 in the words of the spec: an element carries the rules of a style when, for
  every property/value pair the style specifies, it has that value, compared without
  regard to case.\<close>

definition carriesEveryRule :: "dom \<Rightarrow> node_id \<Rightarrow> Style \<Rightarrow> bool" where
  "carriesEveryRule s elm sty \<longleftrightarrow>
     list_all (\<lambda>rule. case snd rule of
                        None \<Rightarrow> True
                      | Some v \<Rightarrow> toLowerCase (css s elm (fst rule)) = toLowerCase v)
       (case optionsStyle sty of None \<Rightarrow> [] | Some rs \<Rightarrow> rs)"

definition suitable_as_claimed :: "ApplyStyle \<Rightarrow> node_id option \<Rightarrow> bool \<Rightarrow> bool" where
  "suitable_as_claimed st elm strict =
     (case elm of
        None \<Rightarrow> False
      | Some e \<Rightarrow>
          ((element (style st) \<noteq> defaultTag (style st) \<or> \<not> strict) \<and>
           toLowerCase (nodeName (heap (docOf st) e)) = element (style st)) \<or>
          (carriesEveryRule (docOf st) e (style st) \<and> \<not> isMarker (docOf st) (Some e) \<and>
           \<not> isEmptyTextNode (docOf st) (Some e)))"

text \<open>A \<open>font\<close> element coloured red, and the style ``span with colour red''.\<close>

definition red_font_example :: ApplyStyle where
  "red_font_example =
     \<lparr>jodit = \<lparr>doc = mkDom [elementNode ''DIV'' None [1],
                            (elementNode ''FONT'' (Some 0) [])\<lparr>cssStyle := [(''color'', ''red'')]\<rparr>],
               editor = 0, area = 0, selLog = []\<rparr>,
      style = \<lparr>element = ''span'', defaultTag = ''span'', elementIsBlock = False,
                optionsStyle = Some [(''color'', Some ''red'')]\<rparr>,
      mode = None\<rparr>"

text \<open>
  Claim C3 as stated fails: the source never takes a \<open>font\<close> element as suitable by its
  CSS rules, though this one carries the colour the style specifies and is neither a
  marker nor an empty text node.
\<close>

theorem isSuitableElement_font_counterexample:
  "isSuitableElement red_font_example (Some 1) True = False \<and>
   suitable_as_claimed red_font_example (Some 1) True = True"
  by (simp add: isSuitableElement_def suitable_as_claimed_def red_font_example_def docOf_def
      elementHasSameStyle_def isTag_def kindOf_def heap_mkDom elementNode_def toLowerCase_def
      carriesEveryRule_def css_def isMarker_def isEmptyTextNode_def isText_def)

text \<open>
  Claim C3, amended. \<open>isSuitableElement\<close> is false for null. For a node it is true exactly
  when either (the target tag differs from the default tag, or strict is false) and the
  node's lower-cased name is the target tag; or the style has a rule object, the node is
  an HTML element other than \<open>font\<close>, every rule of the style has a value and the node has
  a non-empty value for the rule's property that equals it up to case, and the node is
  neither a marker nor an empty text node.
\<close>

theorem isSuitableElement_iff:
  "isSuitableElement st None strict = False \<and>
   (isSuitableElement st (Some e) strict \<longleftrightarrow>
      ((element (style st) \<noteq> defaultTag (style st) \<or> \<not> strict) \<and>
       toLowerCase (nodeName (heap (docOf st) e)) = element (style st)) \<or>
      ((\<exists>rs. optionsStyle (style st) = Some rs \<and>
             (\<forall>rule\<in>set rs. \<exists>v. snd rule = Some v \<and> css (docOf st) e (fst rule) \<noteq> [] \<and>
                 toLowerCase v = toLowerCase (css (docOf st) e (fst rule)))) \<and>
       kindOf (docOf st) e = ELEMENT_NODE \<and>
       toLowerCase (nodeName (heap (docOf st) e)) \<noteq> ''font'' \<and>
       \<not> isMarker (docOf st) (Some e) \<and> \<not> isEmptyTextNode (docOf st) (Some e)))"
proof -
  have same: "elementHasSameStyle (docOf st) e (optionsStyle (style st)) \<longleftrightarrow>
      (\<exists>rs. optionsStyle (style st) = Some rs \<and>
             (\<forall>rule\<in>set rs. \<exists>v. snd rule = Some v \<and> css (docOf st) e (fst rule) \<noteq> [] \<and>
                 toLowerCase v = toLowerCase (css (docOf st) e (fst rule)))) \<and>
       kindOf (docOf st) e = ELEMENT_NODE \<and>
       toLowerCase (nodeName (heap (docOf st) e)) \<noteq> ''font''"
  proof (cases "optionsStyle (style st)")
    case None
    then show ?thesis by (simp add: elementHasSameStyle_def)
  next
    case (Some rs)
    have "list_all (\<lambda>rule. css (docOf st) e (fst rule) \<noteq> [] \<and>
                      (case snd rule of
                         None \<Rightarrow> False
                       | Some checkValue \<Rightarrow> toLowerCase checkValue = toLowerCase (css (docOf st) e (fst rule)))) rs
          \<longleftrightarrow> (\<forall>rule\<in>set rs. \<exists>v. snd rule = Some v \<and> css (docOf st) e (fst rule) \<noteq> [] \<and>
                 toLowerCase v = toLowerCase (css (docOf st) e (fst rule)))"
      by (auto simp: list_all_iff split: option.splits)
    moreover have "toLowerCase ''font'' = ''font''" by (simp add: toLowerCase_def)
    ultimately show ?thesis
      using Some by (auto simp: elementHasSameStyle_def isTag_def isHTMLElement_def isElement_def)
  qed
  show ?thesis
    by (auto simp: isSuitableElement_def Let_def same isNormalNode_def)
qed

text \<open>An \<open>em\<close> element coloured \<open>RED\<close> is suitable for the style ``span with colour red'', strictly or not.\<close>

definition red_span_example :: ApplyStyle where
  "red_span_example =
     \<lparr>jodit = \<lparr>doc = mkDom [elementNode ''DIV'' None [1],
                            (elementNode ''EM'' (Some 0) [])\<lparr>cssStyle := [(''color'', ''RED'')]\<rparr>],
               editor = 0, area = 0, selLog = []\<rparr>,
      style = \<lparr>element = ''span'', defaultTag = ''span'', elementIsBlock = False,
                optionsStyle = Some [(''color'', Some ''red'')]\<rparr>,
      mode = None\<rparr>"

theorem isSuitableElement_iff_witness:
  "isSuitableElement red_span_example (Some 1) True \<and>
   \<not> isSuitableElement red_span_example (Some 0) True \<and>
   \<not> isSuitableElement red_span_example None True"
proof -
  have 1: "isSuitableElement red_span_example (Some 1) True"
    unfolding isSuitableElement_iff[where st=red_span_example and strict=True and e=1, THEN conjunct2]
    by (simp add: red_span_example_def docOf_def kindOf_def heap_mkDom elementNode_def
        toLowerCase_def css_def isMarker_def isEmptyTextNode_def isText_def isTag_def)
  have 0: "\<not> isSuitableElement red_span_example (Some 0) True"
    unfolding isSuitableElement_iff[where st=red_span_example and strict=True and e=0, THEN conjunct2]
    by (simp add: red_span_example_def docOf_def kindOf_def heap_mkDom elementNode_def
        toLowerCase_def css_def)
  show ?thesis
    using 0 1 isSuitableElement_iff[where st=red_span_example and strict=True and e=0, THEN conjunct1] by simp
qed

subsection \<open>The mode of a pass\<close>

lemma andThen_returnsD:
  assumes "andThen m f = returns v"
  obtains x where "m = returns x" "f x = returns v"
  using assms by (auto simp: andThen_def returns_def split: option.splits sum.splits)

lemma bind_returnsD:
  assumes "Option.bind m f = returns v"
  obtains x where "m = Some x" "f x = returns v"
  using assms by (cases m) auto

lemma mode_setDoc [simp]: "mode (setDoc d st) = mode st"
  by (simp add: setDoc_def)

lemma style_setDoc [simp]: "style (setDoc d st) = style st"
  by (simp add: setDoc_def)

lemma docOf_setDoc [simp]: "docOf (setDoc d st) = d"
  by (simp add: setDoc_def docOf_def)

lemma setDoc_docOf [simp]: "setDoc (docOf st) st = st"
  by (simp add: setDoc_def docOf_def)

lemma toggleRule_mode: "mode st = Some m \<Longrightarrow> mode (toggleRule elm rule st) = Some m"
  by (simp add: toggleRule_def Let_def split: option.splits)

lemma toggleRule_style [simp]: "style (toggleRule elm rule st) = style st"
  by (simp add: toggleRule_def Let_def split: option.splits)

lemma fold_toggleRule_mode:
  "mode st = Some m \<Longrightarrow> mode (fold (toggleRule elm) rs st) = Some m"
  by (induction rs arbitrary: st) (simp_all add: toggleRule_mode)

lemma toggleStyles_mode:
  assumes "toggleStyles elm st = returns st'" "mode st = Some m"
  shows "mode st' = Some m"
proof -
  define st1 where "st1 = (case optionsStyle (style st) of
                   None \<Rightarrow> st
                 | Some rs \<Rightarrow>
                     if toLowerCase (nodeName (heap (docOf st) elm)) = defaultTag (style st)
                     then fold (toggleRule elm) rs st else st)"
  have m1: "mode st1 = Some m"
    using assms(2) by (simp add: st1_def fold_toggleRule_mode split: option.splits)
  from assms(1) have "st' = st1 \<or> (\<exists>d. st' = setDoc d st1)"
    unfolding toggleStyles_def st1_def[symmetric] Let_def
    using m1 by (auto split: if_splits elim!: andThen_returnsD)
  then show ?thesis using m1 by auto
qed

lemma checkSuitableParent_mode:
  assumes "checkSuitableParent font st = returns (b, st')" "mode st = Some m"
  shows "mode st' = Some m"
proof -
  from assms(1) have "st' = st \<or> (\<exists>elm. toggleStyles elm st = returns st')"
    unfolding checkSuitableParent_def
    by (auto split: option.splits if_splits elim!: andThen_returnsD bind_returnsD)
  then show ?thesis
    using assms(2) toggleStyles_mode[of _ st st' m] by auto
qed

lemma checkSuitableChild_mode:
  assumes "checkSuitableChild font st = returns (b, st')" "mode st = Some m"
  shows "mode st' = Some m"
proof -
  from assms(1) have "st' = st \<or> (\<exists>elm. toggleStyles elm st = returns st')"
    unfolding checkSuitableChild_def
    by (auto split: option.splits if_splits elim!: andThen_returnsD bind_returnsD)
  then show ?thesis
    using assms(2) toggleStyles_mode[of _ st st' m] by auto
qed

lemma checkClosestWrapper_mode:
  assumes "checkClosestWrapper font st = returns (b, st')" "mode st = Some m"
  shows "mode st' = Some m"
proof -
  from assms(1) have "st' = st \<or> (\<exists>elm d. toggleStyles elm st = returns st' \<or>
                                   toggleStyles elm (setDoc d st) = returns st')"
    unfolding checkClosestWrapper_def
    by (auto split: option.splits if_splits elim!: andThen_returnsD bind_returnsD)
  then show ?thesis
    using assms(2) toggleStyles_mode[of _ st st' m] toggleStyles_mode[of _ "setDoc _ st" st' m]
    by auto
qed

text \<open>\<open>unwrapChildren\<close> never writes the mode.\<close>

lemma unwrapChildren_mode:
  assumes "unwrapChildren font st = returns (b, st')"
  shows "mode st' = mode st"
  using assms
  by (auto simp: unwrapChildren_def elim!: andThen_returnsD bind_returnsD)

lemma decide_mode:
  assumes "decide font st = returns (b, st')" "mode st = Some m"
  shows "mode st' = Some m"
proof -
  from assms(1) obtain r1 where r1: "checkSuitableParent font st = returns r1"
    and k1: "(if fst r1 then returns r1
       else andThen (checkSuitableChild font (snd r1)) (\<lambda>r2.
         if fst r2 then returns r2
         else andThen (checkClosestWrapper font (snd r2)) (\<lambda>r3.
           if fst r3 then returns r3
           else unwrapChildren font (snd r3)))) = returns (b, st')"
    unfolding decide_def by (elim andThen_returnsD)
  have m1: "mode (snd r1) = Some m"
    using checkSuitableParent_mode[of font st "fst r1" "snd r1" m] r1 assms(2) by simp
  show ?thesis
  proof (cases "fst r1")
    case True
    then show ?thesis using k1 m1 by auto
  next
    case False
    with k1 obtain r2 where r2: "checkSuitableChild font (snd r1) = returns r2"
      and k2: "(if fst r2 then returns r2
         else andThen (checkClosestWrapper font (snd r2)) (\<lambda>r3.
           if fst r3 then returns r3
           else unwrapChildren font (snd r3))) = returns (b, st')"
      by (auto elim: andThen_returnsD)
    have m2: "mode (snd r2) = Some m"
      using checkSuitableChild_mode[of font "snd r1" "fst r2" "snd r2" m] r2 m1 by simp
    show ?thesis
    proof (cases "fst r2")
      case True
      then show ?thesis using k2 m2 by auto
    next
      case False
      with k2 obtain r3 where r3: "checkClosestWrapper font (snd r2) = returns r3"
        and k3: "(if fst r3 then returns r3 else unwrapChildren font (snd r3)) = returns (b, st')"
        by (auto elim: andThen_returnsD)
      have m3: "mode (snd r3) = Some m"
        using checkClosestWrapper_mode[of font "snd r2" "fst r3" "snd r3" m] r3 m2 by simp
      show ?thesis
      proof (cases "fst r3")
        case True
        then show ?thesis using k3 m3 by auto
      next
        case False
        then have "unwrapChildren font (snd r3) = returns (b, st')" using k3 by simp
        from unwrapChildren_mode[OF this] m3 show ?thesis by simp
      qed
    qed
  qed
qed

lemma wrapUnwrappedText_mode:
  assumes "wrapUnwrappedText elm st = returns (w, st')"
  shows "mode st' = mode st"
  using assms
  by (auto simp: wrapUnwrappedText_def Let_def elim!: andThen_returnsD bind_returnsD)

text \<open>The wrapping step never writes the mode.\<close>

lemma fallbackWrap_mode:
  assumes "fallbackWrap font st = returns st'"
  shows "mode st' = mode st"
proof -
  from assms obtain w r where w: "(if elementIsBlock (style st)
              then Option.bind (up (docOf st) (\<lambda>node. node \<noteq> None \<and> isBlock (docOf st) node)
                                  (Some (area (jodit st))) font) (\<lambda>box.
                     case box of
                       Some b \<Rightarrow> returns (b, st)
                     | None \<Rightarrow> wrapUnwrappedText font st)
              else returns (font, st)) = returns w"
    and st': "st' = setDoc (cssAll (fst r)
                            (if element (style st) = defaultTag (style st)
                             then (case optionsStyle (style st) of None \<Rightarrow> [] | Some rs \<Rightarrow> rs)
                             else [])
                            (snd r)) (snd w)"
    unfolding fallbackWrap_def by (auto elim!: andThen_returnsD)
  have "mode (snd w) = mode st"
    using w wrapUnwrappedText_mode[of font st "fst w" "snd w"]
    by (auto split: if_splits option.splits elim!: bind_returnsD)
  then show ?thesis using st' by simp
qed

lemma applyToElement_mode:
  assumes "applyToElement font st = returns st'" "mode st = Some m"
  shows "mode st' = Some m"
proof -
  from assms(1) obtain r where r: "decide font st = returns r"
    and k: "(if fst r then returns (snd r)
       else
         let st1 = (if mode (snd r) = None then (snd r)\<lparr>mode := Some WRAP\<rparr> else snd r)
         in if mode st1 \<noteq> Some WRAP then returns st1 else fallbackWrap font st1) = returns st'"
    unfolding applyToElement_def by (elim andThen_returnsD)
  have mr: "mode (snd r) = Some m"
    using decide_mode[of font st "fst r" "snd r" m] r assms(2) by simp
  show ?thesis
  proof (cases "fst r")
    case True
    then show ?thesis using k mr by simp
  next
    case False
    show ?thesis
    proof (cases "m = WRAP")
      case True
      then have "fallbackWrap font (snd r) = returns st'" using k False mr by simp
      from fallbackWrap_mode[OF this] mr show ?thesis by simp
    next
      case False
      then show ?thesis using k \<open>\<not> fst r\<close> mr by simp
    qed
  qed
qed

lemma wrapInTag_mode:
  "wrapInTag fonts st = returns st' \<Longrightarrow> mode st = Some m \<Longrightarrow> mode st' = Some m"
proof (induction fonts arbitrary: st)
  case Nil
  then show ?case by simp
next
  case (Cons font fonts)
  from Cons.prems(1) obtain st1 where "applyToElement font st = returns st1"
    "wrapInTag fonts st1 = returns st'"
    by (auto elim: andThen_returnsD)
  then show ?case using Cons.IH[of st1] applyToElement_mode[of font st st1 m] Cons.prems(2) by simp
qed

lemma wrapInTag_append:
  "wrapInTag (xs @ ys) st = andThen (wrapInTag xs st) (wrapInTag ys)"
proof (induction xs arbitrary: st)
  case Nil
  show ?case by simp
next
  case (Cons x xs)
  show ?case
    by (cases "applyToElement x st" rule: option.exhaust; simp add: Cons)
       (metis Cons andThen_def andThen_returns andThen_throws old.sum.exhaust returns_def throws_def)
qed

lemma unwrap_mode_skips_wrap:
  assumes "mode st = Some UNWRAP"
  shows "applyToElement font st = andThen (decide font st) (\<lambda>r. returns (snd r))"
proof (cases "decide font st")
  case None
  then show ?thesis by (simp add: applyToElement_def)
next
  case (Some o1)
  show ?thesis
  proof (cases o1)
    case (Inl e)
    then have "decide font st = throws e" using Some by (simp add: throws_def)
    then show ?thesis by (simp add: applyToElement_def)
  next
    case (Inr r)
    then have d: "decide font st = returns r" using Some by (simp add: returns_def)
    have "mode (snd r) = Some UNWRAP"
      using decide_mode[of font st "fst r" "snd r" UNWRAP] d assms by simp
    then show ?thesis using d by (simp add: applyToElement_def)
  qed
qed

section \<open>\<open>Dom.find\<close> forwards, on the forest\<close>

text \<open>
  What a forward \<open>Dom.find\<close> with \<open>firstChild\<close> computes below its root. \<open>enter\<close> is the call
  with \<open>recurse\<close> set on the first node of a sibling list; \<open>sweep\<close> is the loop over the
  siblings after a node. The children of the node that a call starts from are never
  entered: only a next sibling's are.
\<close>

fun enter :: "(node_id option \<Rightarrow> 'a \<Rightarrow> bool \<times> 'a) \<Rightarrow> forest \<Rightarrow> 'a \<Rightarrow> node_id option \<times> 'a"
  and sweep :: "(node_id option \<Rightarrow> 'a \<Rightarrow> bool \<times> 'a) \<Rightarrow> forest \<Rightarrow> 'a \<Rightarrow> node_id option \<times> 'a" where
  "enter condition Empty a = (None, a)"
| "enter condition (Node c k r) a =
     (if fst (condition (Some c) a) then (Some c, snd (condition (Some c) a))
      else sweep condition r (snd (condition (Some c) a)))"
| "sweep condition Empty a = (None, snd (condition None a))"
| "sweep condition (Node n k r) a =
     (if fst (condition (Some n) a) then (Some n, snd (condition (Some n) a))
      else if fst (enter condition k (snd (condition (Some n) a))) \<noteq> None
      then enter condition k (snd (condition (Some n) a))
      else sweep condition r (snd (enter condition k (snd (condition (Some n) a)))))"

lemma find_recurse:
  "find s condition root True sibling child node a =
     (if fst (condition (Some node) a) then Some (Some node, snd (condition (Some node) a))
      else find s condition root False sibling child node (snd (condition (Some node) a)))"
proof (cases "fst (condition (Some node) a)")
  case True
  then show ?thesis by (subst find.simps) simp
next
  case False
  have "find s condition root True sibling child node a =
        find s condition root False sibling child node (snd (condition (Some node) a))"
    apply (subst find.simps)
    apply (subst (3) find.simps)
    using False apply simp
    done
  then show ?thesis using False by simp
qed

lemma nextSibling_in_list:
  assumes "parentOf s n = Some p" "childrenOf s p = pre @ n # roots r" "n \<notin> set pre"
  shows "nextSibling s n = firstOf r"
  using assms by (cases r) (simp_all add: nextSibling_def following_split)

lemma find_forest:
  "shaped s p f \<Longrightarrow> distinct (childrenOf s p) \<Longrightarrow> p \<notin> set (childrenOf s p) \<Longrightarrow>
   (\<forall>m\<in>set (nodesOf f). distinct (childrenOf s m) \<and> m \<notin> set (childrenOf s m)) \<Longrightarrow>
   (\<forall>pre node a. parentOf s node = Some p \<longrightarrow> childrenOf s p = pre @ node # roots f \<longrightarrow>
      find s condition p False NextSibling FirstChild node a = Some (sweep condition f a)) \<and>
   (\<forall>c a. childrenOf s p = roots f \<longrightarrow> firstOf f = Some c \<longrightarrow>
      find s condition p True NextSibling FirstChild c a = Some (enter condition f a))"
proof (induction f arbitrary: p)
  case Empty
  have "find s condition p False NextSibling FirstChild node a = Some (sweep condition Empty a)"
    if "parentOf s node = Some p" "childrenOf s p = pre @ node # roots Empty" for pre node a
  proof -
    have "nextSibling s node = None"
      using nextSibling_in_list[of s node p pre Empty] that Empty.prems by simp
    then show ?thesis
      by (subst find.simps) (simp add: siblingOf_def that(1) Let_def)
  qed
  then show ?case by simp
next
  case (Node n k r)
  have pn: "parentOf s n = Some p" and cn: "childrenOf s n = roots k"
    and sk: "shaped s n k" and sr: "shaped s p r"
    using Node.prems(1) by simp_all
  have dk: "distinct (childrenOf s n)" "n \<notin> set (childrenOf s n)"
    using Node.prems(4) by simp_all
  have mk: "\<forall>m\<in>set (nodesOf k). distinct (childrenOf s m) \<and> m \<notin> set (childrenOf s m)"
    and mr: "\<forall>m\<in>set (nodesOf r). distinct (childrenOf s m) \<and> m \<notin> set (childrenOf s m)"
    using Node.prems(4) by simp_all
  note ihk = Node.IH(1)[OF sk dk mk]
  note ihr = Node.IH(2)[OF sr Node.prems(2,3) mr]
  have rest: "find s condition p False NextSibling FirstChild n b = Some (sweep condition r b)"
    if "childrenOf s p = pre @ n # roots r" for pre b
    using ihr pn that by blast
  have inner: "find s condition n True NextSibling FirstChild c b = Some (enter condition k b)"
    if "firstOf k = Some c" for c b
    using ihk cn that by blast
  have loop: "find s condition p False NextSibling FirstChild node a = Some (sweep condition (Node n k r) a)"
    if pnode: "parentOf s node = Some p" and ch: "childrenOf s p = pre @ node # roots (Node n k r)"
    for pre node a
  proof -
    have ns: "nextSibling s node = Some n"
      using nextSibling_in_list[of s node p pre "Node n k r"] pnode ch Node.prems(2) by simp
    have np: "n \<noteq> p" using ch Node.prems(3) by auto
    have ch': "childrenOf s p = (pre @ [node]) @ n # roots r" using ch by simp
    show ?thesis
    proof (cases "fst (condition (Some n) a)")
      case True
      then show ?thesis
        by (subst find.simps) (simp add: siblingOf_def ns Let_def)
    next
      case False
      show ?thesis
      proof (cases k)
        case Empty
        then have fc: "firstChild s n = None" using cn by (simp add: firstChild_def)
        show ?thesis
          using False np rest[OF ch'] Empty
          by (subst find.simps) (simp add: siblingOf_def childOf_def ns fc Let_def)
      next
        case (Node c kk kr)
        then have fc: "firstChild s n = Some c" using cn by (simp add: firstChild_def)
        have "firstOf k = Some c" using Node by simp
        note i = inner[OF this]
        show ?thesis
          using False np rest[OF ch'] i
          by (subst find.simps) (simp add: siblingOf_def childOf_def ns fc Let_def)
      qed
    qed
  qed
  have start: "find s condition p True NextSibling FirstChild c a = Some (enter condition (Node n k r) a)"
    if ch: "childrenOf s p = roots (Node n k r)" and c: "firstOf (Node n k r) = Some c" for c a
  proof -
    have cn': "c = n" using c by simp
    have "childrenOf s p = [] @ n # roots r" using ch by simp
    from rest[OF this] show ?thesis
      unfolding find_recurse cn' by simp
  qed
  show ?case using loop start by blast
qed


text \<open>The nodes such a call hands to a condition that never answers true, in the order
  of the calls (the calls on null left out).\<close>

fun visited :: "forest \<Rightarrow> node_id list"
  and visitedAfter :: "forest \<Rightarrow> node_id list" where
  "visited Empty = []"
| "visited (Node c k r) = c # visitedAfter r"
| "visitedAfter Empty = []"
| "visitedAfter (Node n k r) = n # visited k @ visitedAfter r"

lemma visited_subset:
  "set (visited f) \<subseteq> set (nodesOf f) \<and> set (visitedAfter f) \<subseteq> set (nodesOf f)"
  by (induction f) auto

lemma roots_visited:
  "set (roots f) \<subseteq> set (visited f) \<and> set (roots f) \<subseteq> set (visitedAfter f)"
  by (induction f) auto

lemma visited_distinct:
  "distinct (nodesOf f) \<Longrightarrow> distinct (visited f) \<and> distinct (visitedAfter f)"
proof (induction f)
  case Empty
  show ?case by simp
next
  case (Node n k r)
  have "set (visited k) \<subseteq> set (nodesOf k)" "set (visitedAfter r) \<subseteq> set (nodesOf r)"
    using visited_subset by blast+
  then show ?case using Node by auto
qed

lemma shaped_has_parent:
  "shaped s p f \<Longrightarrow> m \<in> set (nodesOf f) \<Longrightarrow> parentOf s m \<noteq> None"
  by (induction f arbitrary: p) auto

section \<open>\<open>unwrapChildren\<close>\<close>

definition matches :: "ApplyStyle \<Rightarrow> node_id list \<Rightarrow> node_id list" where
  "matches st ns = filter (\<lambda>n. isSuitableElement st (Some n) True) ns"

lemma collectSuitable_Some:
  "collectSuitable st (Some n) (xs, flag) =
     (False, xs @ matches st [n],
      if flag = None then Some (isSuitableElement st (Some n) True) else flag)"
  by (simp add: collectSuitable_def matches_def)

lemma collectSuitable_None:
  "flag \<noteq> None \<Longrightarrow> collectSuitable st None (xs, flag) = (False, xs, flag)"
  by (simp add: collectSuitable_def)

lemma matches_append: "matches st (xs @ ys) = matches st xs @ matches st ys"
  by (simp add: matches_def)

lemma matches_Cons: "matches st [x] @ matches st xs = matches st (x # xs)"
  by (simp add: matches_def)

lemma collect_forest:
  "flag \<noteq> None \<Longrightarrow>
   sweep (collectSuitable st) f (xs, flag) = (None, xs @ matches st (visitedAfter f), flag) \<and>
   enter (collectSuitable st) f (xs, flag) = (None, xs @ matches st (visited f), flag)"
proof (induction f arbitrary: xs)
  case Empty
  then show ?case by (simp add: collectSuitable_None matches_def)
next
  case (Node n k r)
  have sw: "sweep (collectSuitable st) r (ys, flag) = (None, ys @ matches st (visitedAfter r), flag)" for ys
    using Node.IH(2)[OF Node.prems] by simp
  have en: "enter (collectSuitable st) k (ys, flag) = (None, ys @ matches st (visited k), flag)" for ys
    using Node.IH(1)[OF Node.prems] by simp
  have c: "collectSuitable st (Some n) (xs, flag) = (False, xs @ matches st [n], flag)"
    using Node.prems by (simp add: collectSuitable_Some)
  have l1: "matches st (visitedAfter (Node n k r)) =
              matches st [n] @ matches st (visited k) @ matches st (visitedAfter r)"
    by (simp add: matches_def)
  have l2: "matches st (visited (Node n k r)) = matches st [n] @ matches st (visitedAfter r)"
    by (simp add: matches_def)
  have "sweep (collectSuitable st) (Node n k r) (xs, flag) =
          (None, xs @ matches st (visitedAfter (Node n k r)), flag)"
    unfolding l1 by (simp add: c en sw)
  moreover have "enter (collectSuitable st) (Node n k r) (xs, flag) =
          (None, xs @ matches st (visited (Node n k r)), flag)"
    unfolding l2 by (simp add: c sw)
  ultimately show ?case by simp
qed

lemma collect_from_first:
  "enter (collectSuitable st) (Node c k r) ([], None) =
     (None, matches st (visited (Node c k r)), Some (isSuitableElement st (Some c) True))"
proof -
  have c: "collectSuitable st (Some c) ([], None) =
             (False, matches st [c], Some (isSuitableElement st (Some c) True))"
    by (simp add: collectSuitable_Some)
  have l2: "matches st (visited (Node c k r)) = matches st [c] @ matches st (visitedAfter r)"
    by (simp add: matches_def)
  show ?thesis
    unfolding l2
    using collect_forest[of "Some (isSuitableElement st (Some c) True)" st r "matches st [c]"]
    by (simp add: c)
qed

text \<open>\<open>unwrapChildren\<close> is the unwrapping, in the order of the scan, of the suitable nodes
  among those the scan visits; its answer is whether the first child is suitable.\<close>

lemma unwrapChildren_value:
  assumes w: "wf_dom (docOf st)" and sh: "shaped (docOf st) font f"
    and r: "roots f = childrenOf (docOf st) font"
  shows "unwrapChildren font st =
           andThen (unwrapAll (matches st (visited f)) (docOf st)) (\<lambda>d.
             returns (isSuitableElement st (firstChild (docOf st) font) True, setDoc d st))"
proof (cases f)
  case Empty
  then have "firstChild (docOf st) font = None" using r[symmetric] by (simp add: firstChild_def)
  then show ?thesis
    using Empty by (simp add: unwrapChildren_def isSuitableElement_def matches_def)
next
  case (Node c k rr)
  then have fc: "firstChild (docOf st) font = Some c" using r[symmetric] by (simp add: firstChild_def)
  have d: "distinct (childrenOf (docOf st) font)" using wf_domD(3)[OF w] .
  have nf: "font \<notin> set (childrenOf (docOf st) font)"
    using wf_domD(2)[OF w, of font font] parent_neq[OF w, of font font] by auto
  have all: "\<forall>m\<in>set (nodesOf f). distinct (childrenOf (docOf st) m) \<and> m \<notin> set (childrenOf (docOf st) m)"
    using wf_domD(3)[OF w] wf_domD(2)[OF w] parent_neq[OF w] by blast
  have fo: "firstOf f = Some c" using Node by simp
  have e: "enter (collectSuitable st) f ([], None) =
             (None, matches st (visited f), Some (isSuitableElement st (Some c) True))"
    unfolding Node by (rule collect_from_first)
  have "find (docOf st) (collectSuitable st) font True NextSibling FirstChild c ([], None) =
          Some (enter (collectSuitable st) f ([], None))"
    using find_forest[OF sh d nf all, of "collectSuitable st", THEN conjunct2, rule_format, of c "([], None)"]
      r[symmetric] fo by simp
  then show ?thesis
    unfolding unwrapChildren_def fc by (simp add: e)
qed

subsection \<open>\<open>Dom.unwrap\<close> on every well-formed store\<close>

lemma unwrap_returns:
  assumes w: "wf_dom s"
  shows "\<exists>s'. unwrap n s = returns s' \<and> wf_dom s' \<and> fresh s' = fresh s \<and>
           (\<forall>m. dataOf s' m = dataOf s m) \<and>
           (parentOf s n = None \<longrightarrow> s' = s) \<and>
           (parentOf s n \<noteq> None \<longrightarrow>
              parentOf s' n = None \<and> childrenOf s' n = [] \<and>
              (\<forall>m. m \<noteq> n \<longrightarrow> parentOf s' m = (if parentOf s m = Some n then parentOf s n else parentOf s m)) \<and>
              (\<forall>m. m \<noteq> n \<and> Some m \<noteq> parentOf s n \<longrightarrow> childrenOf s' m = childrenOf s m) \<and>
              (\<forall>pre post. childrenOf s (the (parentOf s n)) = pre @ n # post \<longrightarrow>
                 childrenOf s' (the (parentOf s n)) = pre @ childrenOf s n @ post))"
proof (cases "parentOf s n")
  case None
  then show ?thesis using w by (simp add: unwrap_def)
next
  case (Some p)
  have "n \<in> set (childrenOf s p)" using wf_domD(1)[OF w Some] .
  then obtain pre post where sp: "childrenOf s p = pre @ n # post" by (auto dest: split_list)
  from unwrap_loop_moves[OF w Some sp, of "childrenOf s n"]
  obtain s1 where s1: "unwrap_loop p n s = returns s1" "wf_dom s1"
    "childrenOf s1 p = pre @ childrenOf s n @ n # post" "childrenOf s1 n = []"
    "parentOf s1 n = Some p" "\<forall>c\<in>set (childrenOf s n). parentOf s1 c = Some p"
    "\<forall>m. m \<notin> set (childrenOf s n) \<longrightarrow> parentOf s1 m = parentOf s m"
    "\<forall>m. m \<noteq> p \<and> m \<noteq> n \<longrightarrow> childrenOf s1 m = childrenOf s m"
    "\<forall>m. dataOf s1 m = dataOf s m" "fresh s1 = fresh s"
    by auto
  have d: "distinct (pre @ childrenOf s n @ n # post)"
    using wf_domD(3)[OF s1(2), of p] s1(3) by simp
  have d0: "distinct (pre @ n # post)" using wf_domD(3)[OF w, of p] sp by simp
  have np: "n \<noteq> p" using parent_neq[OF w Some] .
  have kids: "m \<in> set (childrenOf s n) \<longleftrightarrow> parentOf s m = Some n" for m
    using wf_domD(1,2)[OF w] by blast
  have run: "unwrap n s = returns (removeNode n s1)"
    using Some s1(1,5) by (simp add: unwrap_def safeRemove_def removeChild_def)
  have a: "wf_dom (removeNode n s1)" using s1(2) by (rule wf_dom_removeNode)
  have b: "childrenOf (removeNode n s1) n = []" using s1(4,5) np by simp
  have c: "\<forall>m. m \<noteq> n \<longrightarrow> parentOf (removeNode n s1) m =
             (if parentOf s m = Some n then parentOf s n else parentOf s m)"
    using s1(6,7) kids Some by auto
  have e: "\<forall>m. m \<noteq> n \<and> Some m \<noteq> parentOf s n \<longrightarrow> childrenOf (removeNode n s1) m = childrenOf s m"
    using s1(5,8) Some by auto
  have f: "childrenOf (removeNode n s1) p = pre' @ childrenOf s n @ post'"
    if "childrenOf s p = pre' @ n # post'" for pre' post'
  proof -
    have "pre' = pre \<and> post' = post"
      using that sp d0
      by (metis append_Cons_eq_iff distinct.simps(2) distinct_append not_distinct_conv_prefix)
    then show ?thesis using s1(3,5) d by simp
  qed
  show ?thesis
    using run a b c e f s1(9,10) Some by simp
qed

lemma unwrapAll_returns:
  "wf_dom d \<Longrightarrow> distinct ns \<Longrightarrow> (\<forall>n\<in>set ns. parentOf d n \<noteq> None) \<Longrightarrow>
   \<exists>d'. unwrapAll ns d = returns d' \<and> wf_dom d' \<and> fresh d' = fresh d \<and>
        (\<forall>m. dataOf d' m = dataOf d m) \<and>
        (\<forall>n\<in>set ns. parentOf d' n = None \<and> childrenOf d' n = []) \<and>
        (\<forall>m. m \<notin> set ns \<longrightarrow> (parentOf d' m = None \<longleftrightarrow> parentOf d m = None)) \<and>
        (\<forall>m. parentOf d m = None \<and> childrenOf d m = [] \<longrightarrow> parentOf d' m = None \<and> childrenOf d' m = [])"
proof (induction ns arbitrary: d)
  case Nil
  then show ?case by simp
next
  case (Cons n ns)
  note w = \<open>wf_dom d\<close>
  have pn: "parentOf d n \<noteq> None" using Cons.prems(3) by simp
  from unwrap_returns[OF w, of n] pn obtain d1 where d1:
    "unwrap n d = returns d1" "wf_dom d1" "fresh d1 = fresh d" "\<forall>m. dataOf d1 m = dataOf d m"
    "parentOf d1 n = None" "childrenOf d1 n = []"
    "\<forall>m. m \<noteq> n \<longrightarrow> parentOf d1 m = (if parentOf d m = Some n then parentOf d n else parentOf d m)"
    "\<forall>m. m \<noteq> n \<and> Some m \<noteq> parentOf d n \<longrightarrow> childrenOf d1 m = childrenOf d m"
    by auto
  have rest: "\<forall>k\<in>set ns. parentOf d1 k \<noteq> None"
    using d1(7) Cons.prems(2,3) pn by auto
  from Cons.IH[OF d1(2) _ rest] Cons.prems(2) obtain d' where d':
    "unwrapAll ns d1 = returns d'" "wf_dom d'" "fresh d' = fresh d1" "\<forall>m. dataOf d' m = dataOf d1 m"
    "\<forall>n\<in>set ns. parentOf d' n = None \<and> childrenOf d' n = []"
    "\<forall>m. m \<notin> set ns \<longrightarrow> (parentOf d' m = None \<longleftrightarrow> parentOf d1 m = None)"
    "\<forall>m. parentOf d1 m = None \<and> childrenOf d1 m = [] \<longrightarrow> parentOf d' m = None \<and> childrenOf d' m = []"
    by auto
  have run: "unwrapAll (n # ns) d = returns d'" using d1(1) d'(1) by simp
  have a: "\<forall>k\<in>set (n # ns). parentOf d' k = None \<and> childrenOf d' k = []"
    using d'(5,7) d1(5,6) by auto
  have b: "\<forall>m. m \<notin> set (n # ns) \<longrightarrow> (parentOf d' m = None \<longleftrightarrow> parentOf d m = None)"
    using d'(6) d1(7) pn by auto
  have c: "parentOf d' m = None \<and> childrenOf d' m = []" if m: "parentOf d m = None" "childrenOf d m = []" for m
  proof -
    have mn: "m \<noteq> n" using m(1) pn by auto
    have "Some m \<noteq> parentOf d n"
    proof
      assume "Some m = parentOf d n"
      then have "n \<in> set (childrenOf d m)" using wf_domD(1)[OF w, of n m] by simp
      then show False using m(2) by simp
    qed
    then have "parentOf d1 m = None \<and> childrenOf d1 m = []"
      using d1(7,8) mn m by auto
    then show ?thesis using d'(7) by blast
  qed
  show ?case
    using run d'(2) a b c d'(3,4) d1(3,4) by auto
qed

text \<open>
  \<open><div><font>a<strong>b</strong></font></div>\<close> and the style ``bold'': node 0 is the div (the
  editor and the area), 1 the font fragment, 2 the text a, 3 the strong element, 4 the
  text b. No mode is chosen yet.
\<close>

definition mixed_example :: ApplyStyle where
  "mixed_example =
     \<lparr>jodit = \<lparr>doc = mkDom [elementNode ''DIV'' None [1], elementNode ''FONT'' (Some 0) [2, 3],
                            textNode ''a'' (Some 1), elementNode ''STRONG'' (Some 1) [4],
                            textNode ''b'' (Some 3)],
               editor = 0, area = 0, selLog = []\<rparr>,
      style = \<lparr>element = ''strong'', defaultTag = ''span'', elementIsBlock = False,
                optionsStyle = Some [(''font-weight'', Some ''bold'')]\<rparr>,
      mode = None\<rparr>"

lemma wf_dom_mixed_example: "wf_dom (docOf mixed_example)"
  unfolding mixed_example_def docOf_def
  by (simp, rule wf_dom_mkDom)
     (simp add: dom_ok_def node_ok_def elementNode_def textNode_def All_less_Suc)

lemma shaped_mixed_example:
  "shaped (docOf mixed_example) 1 (Node 2 Empty (Node 3 (Node 4 Empty Empty) Empty))"
  by (simp add: mixed_example_def docOf_def parentOf_mkDom childrenOf_mkDom elementNode_def textNode_def)

lemma children_mixed_example: "childrenOf (docOf mixed_example) 1 = [2, 3]"
  by (simp add: mixed_example_def docOf_def childrenOf_mkDom elementNode_def)

lemma suitable_mixed_example:
  "\<not> isSuitableElement mixed_example (Some 2) True"
  "isSuitableElement mixed_example (Some 3) True"
  "\<not> isSuitableElement mixed_example (Some 4) True"
  by (simp_all add: isSuitableElement_def mixed_example_def docOf_def heap_mkDom elementNode_def
      textNode_def toLowerCase_def elementHasSameStyle_def isHTMLElement_def isElement_def
      kindOf_def isTag_def)

text \<open>
  Claim C4 as stated fails: the scan finds the suitable \<open>strong\<close> child of the fragment and
  unwraps it, yet the step answers false and leaves the mode unset.
\<close>

theorem unwrapChildren_counterexample:
  "\<exists>st'. unwrapChildren 1 mixed_example = returns (False, st') \<and> mode st' = None \<and>
         isSuitableElement mixed_example (Some 3) True \<and>
         parentOf (docOf mixed_example) 3 = Some 1 \<and> parentOf (docOf st') 3 = None"
proof -
  have m: "matches mixed_example (visited (Node 2 Empty (Node 3 (Node 4 Empty Empty) Empty))) = [3]"
    by (simp add: matches_def suitable_mixed_example)
  have fc: "firstChild (docOf mixed_example) 1 = Some 2"
    using children_mixed_example by (simp add: firstChild_def)
  have v: "unwrapChildren 1 mixed_example =
             andThen (unwrapAll [3] (docOf mixed_example)) (\<lambda>d. returns (False, setDoc d mixed_example))"
    using unwrapChildren_value[OF wf_dom_mixed_example shaped_mixed_example] children_mixed_example
      m fc suitable_mixed_example(1)
    by simp
  have p3: "parentOf (docOf mixed_example) 3 = Some 1"
    by (simp add: mixed_example_def docOf_def parentOf_mkDom elementNode_def)
  from unwrapAll_returns[OF wf_dom_mixed_example, of "[3]"] p3
  obtain d where d: "unwrapAll [3] (docOf mixed_example) = returns d" "parentOf d 3 = None"
    by auto
  have "mode mixed_example = None" by (simp add: mixed_example_def)
  then show ?thesis
    using v d p3 suitable_mixed_example(2) by simp
qed

text \<open>
  Claim C4, amended. On every well-formed document the step returns. Every node it
  unwraps is a suitable descendant of the fragment, and every suitable child of the
  fragment is among them. Each of them ends out of the tree and without children; every
  other node is attached afterwards exactly when it was before, and no node's own data
  changes. The answer is whether the fragment's first child is suitable, not whether a
  suitable node was found; and the step leaves the mode as it was.
\<close>

theorem unwrapChildren_answer:
  assumes w: "wf_dom (docOf st)"
  shows "\<exists>ns d. unwrapAll ns (docOf st) = returns d \<and>
           unwrapChildren font st =
             returns (isSuitableElement st (firstChild (docOf st) font) True, setDoc d st) \<and>
           mode (setDoc d st) = mode st \<and> distinct ns \<and>
           (\<forall>n\<in>set ns. isSuitableElement st (Some n) True \<and>
                         (font, n) \<in> (parentRel (docOf st))\<^sup>+) \<and>
           (\<forall>c\<in>set (childrenOf (docOf st) font). isSuitableElement st (Some c) True \<longrightarrow> c \<in> set ns) \<and>
           wf_dom d \<and>
           (\<forall>n\<in>set ns. parentOf d n = None \<and> childrenOf d n = []) \<and>
           (\<forall>m. m \<notin> set ns \<longrightarrow> (parentOf d m = None \<longleftrightarrow> parentOf (docOf st) m = None)) \<and>
           (\<forall>m. dataOf d m = dataOf (docOf st) m)"
proof -
  from forest_exists[OF w, of font] obtain f where
    f: "roots f = childrenOf (docOf st) font" "shaped (docOf st) font f"
    by blast
  let ?ns = "matches st (visited f)"
  have "distinct (nodesOf f)"
    using shaped_distinct[OF w f(2)] wf_domD(3)[OF w, of font] f(1) by simp
  then have "distinct (visited f)" using visited_distinct by blast
  then have dm: "distinct ?ns" by (simp add: matches_def)
  have sub: "set ?ns \<subseteq> set (nodesOf f)"
    using visited_subset[of f] by (auto simp: matches_def)
  then have pm: "\<forall>n\<in>set ?ns. parentOf (docOf st) n \<noteq> None"
    using shaped_has_parent[OF f(2)] by blast
  have below: "\<forall>n\<in>set ?ns. isSuitableElement st (Some n) True \<and>
                  (font, n) \<in> (parentRel (docOf st))\<^sup>+"
    using sub nodesOf_descendants[OF w f(2,1)] by (auto simp: matches_def)
  have kids: "\<forall>c\<in>set (childrenOf (docOf st) font). isSuitableElement st (Some c) True \<longrightarrow> c \<in> set ?ns"
    using roots_visited[of f] f(1) by (auto simp: matches_def)
  from unwrapAll_returns[OF w dm pm] obtain d where d:
    "unwrapAll ?ns (docOf st) = returns d" "wf_dom d"
    "\<forall>m. dataOf d m = dataOf (docOf st) m"
    "\<forall>n\<in>set ?ns. parentOf d n = None \<and> childrenOf d n = []"
    "\<forall>m. m \<notin> set ?ns \<longrightarrow> (parentOf d m = None \<longleftrightarrow> parentOf (docOf st) m = None)"
    by blast
  have run: "unwrapChildren font st =
          returns (isSuitableElement st (firstChild (docOf st) font) True, setDoc d st)"
    using unwrapChildren_value[OF w f(2,1)] d(1) by simp
  have md: "mode (setDoc d st) = mode st" by simp
  show ?thesis
    using d(1) run md dm below kids d(2) d(4) d(5) d(3) by blast
qed

theorem unwrapChildren_answer_witness:
  "wf_dom (docOf mixed_example) \<and>
   (\<exists>ns d. unwrapAll ns (docOf mixed_example) = returns d \<and>
            unwrapChildren 1 mixed_example = returns (False, setDoc d mixed_example) \<and>
            mode (setDoc d mixed_example) = None \<and>
            3 \<in> set ns \<and> 2 \<notin> set ns \<and> parentOf d 3 = None \<and> childrenOf d 3 = [] \<and>
            parentOf d 2 \<noteq> None \<and> wf_dom d)"
proof -
  from unwrapChildren_answer[OF wf_dom_mixed_example, of 1]
  obtain ns d where r: "unwrapAll ns (docOf mixed_example) = returns d"
    "unwrapChildren 1 mixed_example =
       returns (isSuitableElement mixed_example (firstChild (docOf mixed_example) 1) True,
                setDoc d mixed_example)"
    "mode (setDoc d mixed_example) = mode mixed_example"
    "\<forall>n\<in>set ns. isSuitableElement mixed_example (Some n) True \<and>
                         (1, n) \<in> (parentRel (docOf mixed_example))\<^sup>+"
    "\<forall>c\<in>set (childrenOf (docOf mixed_example) 1).
        isSuitableElement mixed_example (Some c) True \<longrightarrow> c \<in> set ns"
    "wf_dom d"
    "\<forall>n\<in>set ns. parentOf d n = None \<and> childrenOf d n = []"
    "\<forall>m. m \<notin> set ns \<longrightarrow> (parentOf d m = None \<longleftrightarrow> parentOf (docOf mixed_example) m = None)"
    by blast
  have fc: "firstChild (docOf mixed_example) 1 = Some 2"
    using children_mixed_example by (simp add: firstChild_def)
  have a: "\<not> isSuitableElement mixed_example (firstChild (docOf mixed_example) 1) True"
    unfolding fc by (rule suitable_mixed_example(1))
  have m: "mode mixed_example = None" by (simp add: mixed_example_def)
  have in3: "3 \<in> set ns"
    using r(5) children_mixed_example suitable_mixed_example(2) by simp
  have out2: "2 \<notin> set ns" using r(4) suitable_mixed_example(1) by blast
  have p2: "parentOf (docOf mixed_example) 2 = Some 1"
    by (simp add: mixed_example_def docOf_def parentOf_mkDom textNode_def)
  have "parentOf d 2 \<noteq> None" using r(8) out2 p2 by simp
  then show ?thesis
    using wf_dom_mixed_example r(1,2,3,6,7) a m in3 out2 by auto
qed

text \<open>
  A remark on the scan. \<open>Dom.find\<close> does not go below the node it starts from, so a
  suitable node below the fragment's first child is not unwrapped, although the comment on
  \<open>unwrapChildren\<close> reads ``Unwrap all suit elements inside''. In
  \<open><div><font><em><strong>b</strong></em>c</font></div>\<close> (node 0 the div, 1 the font
  fragment, 2 the em, 3 the text c, 4 the strong, 5 the text b) the step leaves the
  document as it is.
\<close>

definition deep_example :: ApplyStyle where
  "deep_example =
     \<lparr>jodit = \<lparr>doc = mkDom [elementNode ''DIV'' None [1], elementNode ''FONT'' (Some 0) [2, 3],
                            elementNode ''EM'' (Some 1) [4], textNode ''c'' (Some 1),
                            elementNode ''STRONG'' (Some 2) [5], textNode ''b'' (Some 4)],
               editor = 0, area = 0, selLog = []\<rparr>,
      style = \<lparr>element = ''strong'', defaultTag = ''span'', elementIsBlock = False,
                optionsStyle = Some [(''font-weight'', Some ''bold'')]\<rparr>,
      mode = None\<rparr>"

lemma unwrapChildren_below_first_child:
  "wf_dom (docOf deep_example) \<and> isSuitableElement deep_example (Some 4) True \<and>
   (1, 4) \<in> (parentRel (docOf deep_example))\<^sup>+ \<and>
   unwrapChildren 1 deep_example = returns (False, deep_example)"
proof -
  have w: "wf_dom (docOf deep_example)"
    unfolding deep_example_def docOf_def
    by (simp, rule wf_dom_mkDom)
       (simp add: dom_ok_def node_ok_def elementNode_def textNode_def All_less_Suc)
  let ?f = "Node 2 (Node 4 (Node 5 Empty Empty) Empty) (Node 3 Empty Empty)"
  have sh: "shaped (docOf deep_example) 1 ?f"
    by (simp add: deep_example_def docOf_def parentOf_mkDom childrenOf_mkDom elementNode_def textNode_def)
  have ch: "childrenOf (docOf deep_example) 1 = [2, 3]"
    by (simp add: deep_example_def docOf_def childrenOf_mkDom elementNode_def)
  have su: "\<not> isSuitableElement deep_example (Some 2) True"
    "\<not> isSuitableElement deep_example (Some 3) True"
    "isSuitableElement deep_example (Some 4) True"
    by (simp_all add: isSuitableElement_def deep_example_def docOf_def heap_mkDom elementNode_def
        textNode_def toLowerCase_def elementHasSameStyle_def isHTMLElement_def isElement_def
        kindOf_def isTag_def css_def)
  have m: "matches deep_example (visited ?f) = []"
    by (simp add: matches_def su)
  have fc: "firstChild (docOf deep_example) 1 = Some 2" using ch by (simp add: firstChild_def)
  have sd: "setDoc (docOf deep_example) deep_example = deep_example"
    by (simp add: setDoc_def docOf_def)
  have v: "unwrapChildren 1 deep_example = returns (False, deep_example)"
    using unwrapChildren_value[OF w sh] ch m fc su(1) sd by simp
  have p: "parentOf (docOf deep_example) 4 = Some 2" "parentOf (docOf deep_example) 2 = Some 1"
    by (simp_all add: deep_example_def docOf_def parentOf_mkDom elementNode_def)
  have "(1, 2) \<in> parentRel (docOf deep_example)" "(2, 4) \<in> parentRel (docOf deep_example)"
    using p by simp_all
  then have "(1, 4) \<in> (parentRel (docOf deep_example))\<^sup>+" by (meson trancl.simps)
  then show ?thesis using w su(3) v by simp
qed

subsection \<open>Single rounds of \<open>Dom.find\<close> and \<open>Dom.up\<close>\<close>

lemma find_hit:
  assumes "siblingOf s sibling node = Some n" "fst (condition (Some n) a)"
  shows "find s condition root False sibling child node a = Some (Some n, snd (condition (Some n) a))"
  using assms by (subst find.simps) (simp add: Let_def)

lemma find_end:
  assumes "siblingOf s sibling node = None" "parentOf s node = Some root"
  shows "find s condition root False sibling child node a = Some (None, snd (condition None a))"
  using assms by (subst find.simps) (simp add: Let_def)

lemma up_stop:
  assumes "\<not> condition (Some start)" "parentOf s start = Some root"
  shows "up s condition (Some root) start = Some None"
  using assms by (subst up.simps) simp

text \<open>In the mode \<open>UNWRAP\<close> a rule is only ever taken off an element.\<close>

lemma toggleRule_UNWRAP:
  "mode st = Some UNWRAP \<Longrightarrow> toggleRule elm rule st = setDoc (cssSet elm (fst rule) [] (docOf st)) st"
  by (simp add: toggleRule_def)

text \<open>
  \<open><div><font>a</font><font>b</font></div>\<close> in a pass whose mode is \<open>UNWRAP\<close>: node 0 is the div
  (the editor and the area), 1 and 3 are the fragments, 2 and 4 their texts.
\<close>

definition plain_example :: ApplyStyle where
  "plain_example =
     \<lparr>jodit = \<lparr>doc = mkDom [elementNode ''DIV'' None [1, 3], elementNode ''FONT'' (Some 0) [2],
                            textNode ''a'' (Some 1), elementNode ''FONT'' (Some 0) [4],
                            textNode ''b'' (Some 3)],
               editor = 0, area = 0, selLog = []\<rparr>,
      style = \<lparr>element = ''strong'', defaultTag = ''span'', elementIsBlock = False,
                optionsStyle = Some [(''font-weight'', Some ''bold'')]\<rparr>,
      mode = Some UNWRAP\<rparr>"

lemma wf_dom_plain_example: "wf_dom (docOf plain_example)"
  unfolding plain_example_def docOf_def
  by (simp, rule wf_dom_mkDom)
     (simp add: dom_ok_def node_ok_def elementNode_def textNode_def All_less_Suc)

lemma plain_example_tree:
  "parentOf (docOf plain_example) 1 = Some 0" "parentOf (docOf plain_example) 2 = Some 1"
  "parentOf (docOf plain_example) 3 = Some 0" "parentOf (docOf plain_example) 4 = Some 3"
  "childrenOf (docOf plain_example) 0 = [1, 3]" "childrenOf (docOf plain_example) 1 = [2]"
  "childrenOf (docOf plain_example) 2 = []" "childrenOf (docOf plain_example) 3 = [4]"
  "childrenOf (docOf plain_example) 4 = []"
  by (simp_all add: plain_example_def docOf_def parentOf_mkDom childrenOf_mkDom elementNode_def textNode_def)

lemma plain_example_siblings:
  "nextSibling (docOf plain_example) 1 = Some 3" "nextSibling (docOf plain_example) 3 = None"
  "previousSibling (docOf plain_example) 3 = Some 1" "previousSibling (docOf plain_example) 1 = None"
  "nextSibling (docOf plain_example) 2 = None" "previousSibling (docOf plain_example) 2 = None"
  "nextSibling (docOf plain_example) 4 = None" "previousSibling (docOf plain_example) 4 = None"
  using plain_example_tree by (simp_all add: nextSibling_def previousSibling_def)

lemma plain_example_suitable:
  "\<not> isSuitableElement plain_example (Some 1) strict" "\<not> isSuitableElement plain_example (Some 2) strict"
  "\<not> isSuitableElement plain_example (Some 3) strict" "\<not> isSuitableElement plain_example (Some 4) strict"
  by (simp_all add: isSuitableElement_def plain_example_def docOf_def heap_mkDom elementNode_def
      textNode_def toLowerCase_def elementHasSameStyle_def isHTMLElement_def isElement_def
      kindOf_def isTag_def)

lemma plain_example_normal:
  "isNormalNode plain_example (Some 1)" "isNormalNode plain_example (Some 3)"
  "\<not> isNormalNode plain_example None"
  by (simp_all add: isNormalNode_def plain_example_def docOf_def heap_mkDom elementNode_def
      isEmptyTextNode_def isText_def kindOf_def isMarker_def isTag_def toLowerCase_def)

lemma plain_example_first:
  "checkSuitableParent 1 plain_example = returns (False, plain_example)"
  "checkSuitableChild 1 plain_example = returns (False, plain_example)"
  "checkClosestWrapper 1 plain_example = returns (False, plain_example)"
  "unwrapChildren 1 plain_example = returns (False, plain_example)"
proof -
  have "next (docOf plain_example) 1 (isNormalNode plain_example) 0 True = Some (Some 3)"
    unfolding next_def
    using find_hit[of "docOf plain_example" NextSibling 1 3 "stateless (isNormalNode plain_example)" "()" 0 FirstChild]
      plain_example_siblings(1) plain_example_normal(2)
    by (simp add: siblingOf_def stateless_def)
  then show "checkSuitableParent 1 plain_example = returns (False, plain_example)"
    using plain_example_tree(1) by (simp add: checkSuitableParent_def)
  have n: "next (docOf plain_example) 2 (isNormalNode plain_example) 1 True = Some None"
    unfolding next_def
    using find_end[of "docOf plain_example" NextSibling 2 1 "stateless (isNormalNode plain_example)" FirstChild "()"]
      plain_example_siblings(5) plain_example_tree(2)
    by (simp add: siblingOf_def)
  have p: "prev (docOf plain_example) 2 (isNormalNode plain_example) 1 True = Some None"
    unfolding prev_def
    using find_end[of "docOf plain_example" PreviousSibling 2 1 "stateless (isNormalNode plain_example)" LastChild "()"]
      plain_example_siblings(6) plain_example_tree(2)
    by (simp add: siblingOf_def)
  have fc: "firstChild (docOf plain_example) 1 = Some 2"
    using plain_example_tree(6) by (simp add: firstChild_def)
  show "checkSuitableChild 1 plain_example = returns (False, plain_example)"
    using n p fc plain_example_suitable(2)[of False] by (simp add: checkSuitableChild_def)
  have ed: "editor (jodit plain_example) = 0" by (simp add: plain_example_def)
  have "closest (docOf plain_example) 1 (\<lambda>e. isSuitableElement plain_example e True) 0 = Some None"
    unfolding closest_def
    using up_stop[of "\<lambda>e. isSuitableElement plain_example e True" 1 "docOf plain_example" 0]
      plain_example_suitable(1)[of True] plain_example_tree(1)
    by simp
  then show "checkClosestWrapper 1 plain_example = returns (False, plain_example)"
    by (simp add: checkClosestWrapper_def ed)
  have sh: "shaped (docOf plain_example) 1 (Node 2 Empty Empty)"
    using plain_example_tree by simp
  show "unwrapChildren 1 plain_example = returns (False, plain_example)"
    using unwrapChildren_value[OF wf_dom_plain_example sh] plain_example_tree(6) fc
      plain_example_suitable(2)[of True]
    by (simp add: matches_def)
qed

lemma plain_example_second:
  "checkSuitableParent 3 plain_example = returns (False, plain_example)"
  "checkSuitableChild 3 plain_example = returns (False, plain_example)"
  "checkClosestWrapper 3 plain_example = returns (False, plain_example)"
  "unwrapChildren 3 plain_example = returns (False, plain_example)"
proof -
  have n0: "next (docOf plain_example) 3 (isNormalNode plain_example) 0 True = Some None"
    unfolding next_def
    using find_end[of "docOf plain_example" NextSibling 3 0 "stateless (isNormalNode plain_example)" FirstChild "()"]
      plain_example_siblings(2) plain_example_tree(3)
    by (simp add: siblingOf_def)
  have p0: "prev (docOf plain_example) 3 (isNormalNode plain_example) 0 True = Some (Some 1)"
    unfolding prev_def
    using find_hit[of "docOf plain_example" PreviousSibling 3 1 "stateless (isNormalNode plain_example)" "()" 0 LastChild]
      plain_example_siblings(3) plain_example_normal(1)
    by (simp add: siblingOf_def stateless_def)
  show "checkSuitableParent 3 plain_example = returns (False, plain_example)"
    using n0 p0 plain_example_tree(3) by (simp add: checkSuitableParent_def)
  have n: "next (docOf plain_example) 4 (isNormalNode plain_example) 3 True = Some None"
    unfolding next_def
    using find_end[of "docOf plain_example" NextSibling 4 3 "stateless (isNormalNode plain_example)" FirstChild "()"]
      plain_example_siblings(7) plain_example_tree(4)
    by (simp add: siblingOf_def)
  have p: "prev (docOf plain_example) 4 (isNormalNode plain_example) 3 True = Some None"
    unfolding prev_def
    using find_end[of "docOf plain_example" PreviousSibling 4 3 "stateless (isNormalNode plain_example)" LastChild "()"]
      plain_example_siblings(8) plain_example_tree(4)
    by (simp add: siblingOf_def)
  have fc: "firstChild (docOf plain_example) 3 = Some 4"
    using plain_example_tree(8) by (simp add: firstChild_def)
  show "checkSuitableChild 3 plain_example = returns (False, plain_example)"
    using n p fc plain_example_suitable(4)[of False] by (simp add: checkSuitableChild_def)
  have ed: "editor (jodit plain_example) = 0" by (simp add: plain_example_def)
  have "closest (docOf plain_example) 3 (\<lambda>e. isSuitableElement plain_example e True) 0 = Some None"
    unfolding closest_def
    using up_stop[of "\<lambda>e. isSuitableElement plain_example e True" 3 "docOf plain_example" 0]
      plain_example_suitable(3)[of True] plain_example_tree(3)
    by simp
  then show "checkClosestWrapper 3 plain_example = returns (False, plain_example)"
    by (simp add: checkClosestWrapper_def ed)
  have sh: "shaped (docOf plain_example) 3 (Node 4 Empty Empty)"
    using plain_example_tree by simp
  show "unwrapChildren 3 plain_example = returns (False, plain_example)"
    using unwrapChildren_value[OF wf_dom_plain_example sh] plain_example_tree(8) fc
      plain_example_suitable(4)[of True]
    by (simp add: matches_def)
qed

lemma plain_example_decide:
  "decide 1 plain_example = returns (False, plain_example)"
  "decide 3 plain_example = returns (False, plain_example)"
  using plain_example_first plain_example_second by (simp_all add: decide_def)

text \<open>
  Claim C1. A per-fragment step that starts with the mode set ends with the same mode, and
  so does every run of such steps, which is what a pass is from any of its fragments on.
  In the mode \<open>UNWRAP\<close> the step is its four checks alone: the wrapping that follows them
  is not run, and a check that toggles rules only takes them off.
\<close>

theorem mode_held_for_the_pass:
  "(mode st = Some m \<and> applyToElement font st = returns st' \<longrightarrow> mode st' = Some m) \<and>
   (mode st = Some m \<and> wrapInTag fonts st = returns st' \<longrightarrow> mode st' = Some m) \<and>
   wrapInTag (before @ fonts) st = andThen (wrapInTag before st) (wrapInTag fonts) \<and>
   (mode st = Some UNWRAP \<longrightarrow>
      applyToElement font st = andThen (decide font st) (\<lambda>r. returns (snd r)) \<and>
      toggleRule elm rule st = setDoc (cssSet elm (fst rule) [] (docOf st)) st)"
  using applyToElement_mode[of font st st' m] wrapInTag_mode[of fonts st st' m]
    wrapInTag_append[of before fonts st] unwrap_mode_skips_wrap[of st font]
    toggleRule_UNWRAP[of st elm rule]
  by blast

theorem mode_held_for_the_pass_witness:
  "mode plain_example = Some UNWRAP \<and>
   applyToElement 1 plain_example = returns plain_example \<and>
   wrapInTag [1, 3] plain_example = returns plain_example"
proof -
  have m: "mode plain_example = Some UNWRAP" by (simp add: plain_example_def)
  have a: "applyToElement font plain_example =
             andThen (decide font plain_example) (\<lambda>r. returns (snd r))" for font
    using mode_held_for_the_pass[of plain_example UNWRAP font plain_example "[]" "[]" 0 "([], None)"] m
    by simp
  have "applyToElement 1 plain_example = returns plain_example"
       "applyToElement 3 plain_example = returns plain_example"
    using a[of 1] a[of 3] plain_example_decide by simp_all
  then show ?thesis using m by simp
qed

end
